theory Spec2Isabelle
  imports Main "HOL-Library.Word" "HOL-Library.Sublist"
begin

section \<open>Data model of \<open>threadpool::pool::impl\<close>\<close>

text \<open>
  \<open>unsigned int\<close> is a 32-bit word: \<open>+\<close>, \<open>-\<close> and \<open>*\<close> wrap, \<open>div\<close> is the unsigned
  division, \<open>unsigned(-1)\<close> is \<open>- 1\<close>.  The two \<open>atomic_count\<close> members are only ever
  read through \<open>active_tasks()\<close> and \<open>pool_size()\<close>, which convert them to
  \<open>unsigned int\<close>, so they are kept as 32-bit words too.
\<close>

type_synonym uint = "32 word"

datatype resize_flags = flag_no_resize | flag_resize_up | flag_resize_down

datatype shutdown_option = shutdown_option_wait_for_tasks | shutdown_option_cancel_tasks

text \<open>
  A \<open>boost::system_time\<close> is either the default-constructed \<open>not_a_date_time\<close> or a
  point on the clock, counted in ticks.
\<close>

datatype system_time = not_a_date_time | time_point int

definition invalid_system_time :: system_time where
  "invalid_system_time = not_a_date_time"

text \<open>
  A \<open>task_type\<close> is a \<open>boost::function0<void>\<close>: empty (it compares equal to 0), the
  bound member \<open>bind(&impl::pool_monitor, this)\<close> that the constructor submits, or a
  callable of the user, told apart by a number.
\<close>

datatype task_type = empty_function | pool_monitor_bound | user_function nat

record task_impl =
  m_task :: task_type
  m_schedule :: system_time

text \<open>
  Where a worker thread stands in \<open>worker_thread\<close>: at the top of the \<open>for\<close> loop, blocked
  in \<open>m_tasksCondition.wait\<close>, blocked in the \<open>timed_wait\<close> after a re-queue, out of the
  critical section with a task in hand and \<open>m_activeTasks\<close> not yet incremented, inside
  the task body, or returned.
\<close>

datatype worker_pc =
    pc_loop_top
  | pc_wait
  | pc_timed_wait
  | pc_dequeued task_impl
  | pc_running task_impl
  | pc_exited

text \<open>
  A \<open>pool_thread\<close> is the busy flag and the thread object; of the thread the model keeps
  its control point and whether an interruption has been requested.
\<close>

record pool_thread =
  m_busy :: bool
  pc :: worker_pc
  interrupt_requested :: bool

text \<open>
  The constructor of \<open>pool_thread\<close> sets \<open>m_busy\<close> and creates the thread, which starts
  at once, at the top of \<open>worker_thread\<close>.
\<close>

definition new_thread :: pool_thread where
  "new_thread = \<lparr>m_busy = True, pc = pc_loop_top, interrupt_requested = False\<rparr>"

text \<open>
  Where \<open>pool_monitor\<close> stands, with the locals of the function it is in:
  \<^item> at the head of its outer loop (before the first iteration, or in the \<open>timed_wait\<close>
    between two);
  \<^item> at the head of the \<open>while\<close> loop that grows the pool;
  \<^item> inside \<open>add_thread\<close>, past \<open>make_shared\<close>: the thread \<open>t\<close> is created and runs, and is
    not yet in \<open>m_threads\<close>;
  \<^item> inside \<open>add_thread\<close>, past \<open>push_back\<close>, with \<open>m_threadCount\<close> not yet incremented;
  \<^item> inside \<open>remove_idle_threads\<close>, at the head of its \<open>while\<close> loop, with the iterator \<open>it\<close>
    (a position in \<open>m_threads\<close>) and \<open>count\<close>;
  \<^item> there, past \<open>th->interrupt()\<close> and the release of \<open>m_tasksMutex\<close>, before the two
    decrements;
  \<^item> there, past the two decrements, waiting in \<open>th->join()\<close>.
\<close>

datatype monitor_pc =
    mon_loop_head
  | mon_grow_loop
  | mon_add_thread_made pool_thread
  | mon_add_thread_pushed
  | mon_remove_idle_loop nat uint
  | mon_remove_idle_interrupted nat uint
  | mon_remove_idle_join nat uint

text \<open>
  Where the destructor \<open>~impl\<close> stands: not called, past \<open>m_stopPool = true\<close>, at the head
  of the final \<open>while\<close> loop, or inside \<open>remove_thread\<close> waiting in \<open>join\<close>.
\<close>

datatype destructor_pc = dtor_not_called | dtor_stopped | dtor_remove_loop | dtor_in_join

text \<open>
  The members of \<open>pool::impl\<close>, followed by the locals of the one activation of
  \<open>pool_monitor\<close> (the constructor submits it once), the control point of the
  destructor, and the local \<open>t\<close> of the destructor's \<open>remove_thread\<close>: the thread popped
  from \<open>m_threads\<close> that \<open>join\<close> is waiting for.
\<close>

record pool_state =
  m_stopPool :: bool
  m_minThreads :: uint
  m_maxThreads :: uint
  m_resizeUpTolerance :: uint
  m_resizeDownTolerance :: uint
  m_onShutdown :: shutdown_option
  m_activeTasks :: uint
  m_threadCount :: uint
  m_pendingTasks :: "task_impl list"
  m_threads :: "pool_thread list"
  resize_flag :: resize_flags
  step_count :: uint
  next_pool_size :: uint
  monitor_at :: monitor_pc
  destructor_at :: destructor_pc
  remove_thread_t :: "pool_thread option"

datatype error = assertion_failed | undefined_conversion

text \<open>What \<open>schedule\<close> sends on a condition variable.\<close>

datatype signal = tasksCondition_notify_one

section \<open>Observers\<close>

definition active_tasks :: "pool_state \<Rightarrow> uint" where
  "active_tasks st = m_activeTasks st"

definition pending_tasks :: "pool_state \<Rightarrow> uint" where
  "pending_tasks st = of_nat (length (m_pendingTasks st))"

definition pool_size :: "pool_state \<Rightarrow> uint" where
  "pool_size st = m_threadCount st"

section \<open>Tasks and the queue\<close>

text \<open>\<open>task_impl::is_on_schedule\<close>, with \<open>get_system_time()\<close> as the parameter \<open>now\<close>.\<close>

definition is_on_schedule :: "int \<Rightarrow> task_impl \<Rightarrow> bool" where
  "is_on_schedule now task =
     (case m_schedule task of
        not_a_date_time \<Rightarrow> True
      | time_point t \<Rightarrow> t \<le> now)"

text \<open>
  \<open>impl::schedule\<close>: the failed \<open>assert\<close> is an error; otherwise the new state and the
  notifications sent on the condition variables.
\<close>

definition schedule :: "pool_state \<Rightarrow> task_type \<Rightarrow> system_time \<Rightarrow> error + pool_state \<times> signal list" where
  "schedule st task abs_time =
     (if task = empty_function then Inl assertion_failed
      else if m_stopPool st then Inr (st, [])
      else Inr (st\<lparr>m_pendingTasks := m_pendingTasks st @ [\<lparr>m_task = task, m_schedule = abs_time\<rparr>]\<rparr>,
                [tasksCondition_notify_one]))"

section \<open>The factors of the monitor, in single precision\<close>

text \<open>
  \<open>RESIZE_UP_FACTOR\<close> and \<open>RESIZE_DOWN_FACTOR\<close> are \<open>float\<close>s, so \<open>pool_size()\<close> is
  converted to \<open>float\<close>, multiplied or divided there, and the result is converted back
  with \<open>unsigned(...)\<close>.  The arithmetic is taken in the format of the type, IEEE 754
  single precision (as SSE and ARM evaluate it): a significand of 24 bits, rounding to
  the nearest value, ties to the even significand.  \<open>round_to_float k\<close> is the rounding
  of the natural number \<open>k\<close>; rounding commutes with a scaling by 2, so the rounding of
  \<open>k / 2\<close> is \<open>round_to_float k / 2\<close>.  Below \<open>2 ^ 24\<close> every natural number is a
  single.
\<close>

fun bit_length :: "nat \<Rightarrow> nat" where
  "bit_length n = (if n = 0 then 0 else Suc (bit_length (n div 2)))"

definition round_to_float :: "nat \<Rightarrow> nat" where
  "round_to_float k =
     (if k < 2 ^ 24 then k
      else (let sh = bit_length k - 24;
                q = k div 2 ^ sh;
                r = k mod 2 ^ sh
            in (if 2 ^ sh < 2 * r \<or> (2 * r = 2 ^ sh \<and> odd q) then q + 1 else q) * 2 ^ sh))"

text \<open>
  \<open>unsigned(pool_size() * RESIZE_UP_FACTOR)\<close>: the product \<open>v * 1.5\<close> is \<open>3 * v / 2\<close>, rounded;
  the conversion truncates, and is undefined when the value does not fit 32 bits.
\<close>

definition unsigned_times_up_factor :: "uint \<Rightarrow> error + uint" where
  "unsigned_times_up_factor p =
     (let v = round_to_float (unat p);
          h = round_to_float (3 * v)
      in if h div 2 < 2 ^ 32 then Inr (of_nat (h div 2)) else Inl undefined_conversion)"

text \<open>
  \<open>unsigned(pool_size() / RESIZE_DOWN_FACTOR)\<close>: halving a single is exact, and the result
  is at most \<open>2 ^ 31\<close>.
\<close>

definition unsigned_div_down_factor :: "uint \<Rightarrow> uint" where
  "unsigned_div_down_factor p = of_nat (round_to_float (unat p) div 2)"

section \<open>The worker set\<close>

text \<open>
  \<open>compute_min_threads\<close>, with the value of \<open>thread::hardware_concurrency()\<close> as the
  parameter \<open>hw\<close>.
\<close>

definition compute_min_threads :: "uint \<Rightarrow> uint \<Rightarrow> uint \<Rightarrow> uint" where
  "compute_min_threads hw desired_min_threads desired_max_threads =
     (let desired_min_threads' =
            (if desired_min_threads = - 1
             then (let candidate_thread_count = hw * 2;
                       candidate_thread_count' =
                         (if candidate_thread_count = 0 then 1 else candidate_thread_count)
                   in min candidate_thread_count' desired_max_threads)
             else desired_min_threads)
      in if desired_min_threads' = desired_max_threads then desired_min_threads'
         else desired_min_threads' + 1)"

text \<open>
  \<open>add_thread\<close> is three statements.  \<open>make_shared<pool_thread>\<close> yields \<open>new_thread\<close>, a
  thread that already runs; \<open>push_back\<close> puts the thread \<open>t\<close> at the end of \<open>m_threads\<close>;
  then the counter is incremented.  \<open>add_thread\<close> itself is the three in a row, when the
  new thread does not move between the first two.
\<close>

definition add_thread_push :: "pool_thread \<Rightarrow> pool_state \<Rightarrow> pool_state" where
  "add_thread_push t st = st\<lparr>m_threads := m_threads st @ [t]\<rparr>"

definition add_thread_count :: "pool_state \<Rightarrow> pool_state" where
  "add_thread_count st = st\<lparr>m_threadCount := m_threadCount st + 1\<rparr>"

definition add_thread :: "pool_state \<Rightarrow> pool_state" where
  "add_thread st = add_thread_count (add_thread_push new_thread st)"

text \<open>The loop \<open>while ( pool_size() < n ) add_thread();\<close> of the constructor and of the monitor.\<close>

function add_threads_up_to :: "uint \<Rightarrow> pool_state \<Rightarrow> pool_state" where
  "add_threads_up_to n st =
     (if pool_size st < n then add_threads_up_to n (add_thread st) else st)"
  by pat_completeness auto
termination
proof (relation "measure (\<lambda>(n, st). unat n - unat (m_threadCount st))")
  show "wf (measure (\<lambda>(n, st). unat n - unat (m_threadCount st)))"
    by simp
next
  fix n :: uint and st :: pool_state
  assume less: "pool_size st < n"
  then have "m_threadCount st < n"
    by (simp add: pool_size_def)
  then have "unat (m_threadCount st + 1) = unat (m_threadCount st) + 1" "unat (m_threadCount st) < unat n"
    by unat_arith+
  then show "((n, add_thread st), (n, st)) \<in> measure (\<lambda>(n, st). unat n - unat (m_threadCount st))"
    by (simp add: add_thread_def add_thread_count_def add_thread_push_def)
qed

text \<open>
  The body of the loop of \<open>remove_idle_threads\<close>, with the iterator at the position \<open>it\<close>,
  in the three pieces that other threads can tell apart.

  Under \<open>m_tasksMutex\<close> the busy flag of the worker at \<open>it\<close> is read: a busy worker is
  passed over (\<open>it++\<close>), an idle one is interrupted.
\<close>

definition remove_idle_examine :: "nat \<Rightarrow> uint \<Rightarrow> pool_state \<Rightarrow> pool_state" where
  "remove_idle_examine it count st =
     (if m_busy (m_threads st ! it)
      then st\<lparr>monitor_at := mon_remove_idle_loop (it + 1) count\<rparr>
      else st\<lparr>m_threads := (m_threads st)[it := (m_threads st ! it)\<lparr>interrupt_requested := True\<rparr>],
              monitor_at := mon_remove_idle_interrupted it count\<rparr>)"

text \<open>With the mutex released, \<open>--count; --m_threadCount;\<close>.\<close>

definition remove_idle_decrement :: "nat \<Rightarrow> uint \<Rightarrow> pool_state \<Rightarrow> pool_state" where
  "remove_idle_decrement it count st =
     st\<lparr>m_threadCount := m_threadCount st - 1, monitor_at := mon_remove_idle_join it (count - 1)\<rparr>"

text \<open>
  \<open>th->join()\<close> returns when the thread has ended (until then the monitor has no step);
  then \<open>it = m_threads.erase(it)\<close> takes the worker out of the list and leaves the iterator
  on the one that followed it.
\<close>

definition remove_idle_erase :: "nat \<Rightarrow> uint \<Rightarrow> pool_state \<Rightarrow> pool_state option" where
  "remove_idle_erase it count st =
     (if it < length (m_threads st) \<and> pc (m_threads st ! it) = pc_exited
      then Some (st\<lparr>m_threads := take it (m_threads st) @ drop (Suc it) (m_threads st),
                     monitor_at := mon_remove_idle_loop it count\<rparr>)
      else None)"

text \<open>
  The loop of \<open>remove_idle_threads\<close> as a whole, from the iterator position \<open>it\<close> on, when no
  worker changes its busy flag while the loop runs and every interrupted worker ends:
  what it does to \<open>m_threads\<close> and \<open>m_threadCount\<close>.
\<close>

function remove_idle_threads_from :: "nat \<Rightarrow> uint \<Rightarrow> pool_state \<Rightarrow> pool_state" where
  "remove_idle_threads_from it count st =
     (if it < length (m_threads st) \<and> count > 0 then
        (if m_busy (m_threads st ! it) then remove_idle_threads_from (it + 1) count st
         else remove_idle_threads_from it (count - 1)
                (st\<lparr>m_threads := take it (m_threads st) @ drop (Suc it) (m_threads st),
                    m_threadCount := m_threadCount st - 1\<rparr>))
      else st)"
  by pat_completeness auto
termination
  by (relation "measure (\<lambda>(it, count, st). length (m_threads st) - it)") auto

definition remove_idle_threads :: "uint \<Rightarrow> pool_state \<Rightarrow> pool_state" where
  "remove_idle_threads count st = remove_idle_threads_from 0 count st"

section \<open>The monitor\<close>

definition MAX_STEPS_UP :: "pool_state \<Rightarrow> uint" where
  "MAX_STEPS_UP st = max (m_resizeUpTolerance st) 2"

definition MAX_STEPS_DOWN :: "pool_state \<Rightarrow> uint" where
  "MAX_STEPS_DOWN st = max (m_resizeDownTolerance st) 2"

text \<open>The classification of one iteration: the value given to the local \<open>step_flag\<close>.\<close>

definition step_flag :: "pool_state \<Rightarrow> resize_flags" where
  "step_flag st =
     (if active_tasks st = pool_size st \<and> m_pendingTasks st \<noteq> [] then flag_resize_up
      else if active_tasks st < pool_size st div 4 then flag_resize_down
      else flag_no_resize)"

text \<open>
  The two branches that follow \<open>step_count += 1\<close>.  Growing computes \<open>next_pool_size\<close> and
  enters the loop of \<open>add_thread\<close>; shrinking computes it and calls \<open>remove_idle_threads\<close>
  with \<open>pool_size() - next_pool_size\<close>, which starts with the iterator at
  \<open>m_threads.begin()\<close>.
\<close>

definition pool_monitor_resize :: "pool_state \<Rightarrow> error + pool_state" where
  "pool_monitor_resize st =
     (if resize_flag st = flag_resize_up \<and> step_count st = MAX_STEPS_UP st then
        (case unsigned_times_up_factor (pool_size st) of
           Inl e \<Rightarrow> Inl e
         | Inr u \<Rightarrow> Inr (st\<lparr>next_pool_size := min (m_maxThreads st) u, monitor_at := mon_grow_loop\<rparr>))
      else if resize_flag st = flag_resize_down \<and> step_count st = MAX_STEPS_DOWN st then
        (let st1 = st\<lparr>next_pool_size := max (m_minThreads st) (unsigned_div_down_factor (pool_size st))\<rparr>
         in Inr (st1\<lparr>monitor_at := mon_remove_idle_loop 0 (pool_size st1 - next_pool_size st1)\<rparr>))
      else Inr st)"

text \<open>
  One iteration of the outer loop, up to the head of the growing loop or of the loop of
  \<open>remove_idle_threads\<close>.
\<close>

definition pool_monitor_begin :: "pool_state \<Rightarrow> error + pool_state" where
  "pool_monitor_begin st =
     (let step_flag = step_flag st
      in if step_flag \<noteq> resize_flag st
         then Inr (st\<lparr>step_count := 0, resize_flag := step_flag\<rparr>)
         else pool_monitor_resize (st\<lparr>step_count := step_count st + 1\<rparr>))"

text \<open>What follows the growing loop: the flag and the counter are reset.\<close>

definition pool_monitor_grown :: "pool_state \<Rightarrow> pool_state" where
  "pool_monitor_grown st =
     st\<lparr>resize_flag := flag_no_resize, step_count := 0, monitor_at := mon_loop_head\<rparr>"

text \<open>What follows the return of \<open>remove_idle_threads\<close>: the same two assignments.\<close>

definition pool_monitor_shrunk :: "pool_state \<Rightarrow> pool_state" where
  "pool_monitor_shrunk st =
     st\<lparr>resize_flag := flag_no_resize, step_count := 0, monitor_at := mon_loop_head\<rparr>"

text \<open>
  One whole iteration of the outer loop when no other thread moves while it runs (but
  that the workers it interrupts end).
\<close>

definition pool_monitor_iteration :: "pool_state \<Rightarrow> error + pool_state" where
  "pool_monitor_iteration st =
     (case pool_monitor_begin st of
        Inl e \<Rightarrow> Inl e
      | Inr st1 \<Rightarrow>
          (case monitor_at st1 of
             mon_grow_loop \<Rightarrow> Inr (pool_monitor_grown (add_threads_up_to (next_pool_size st1) st1))
           | mon_remove_idle_loop it count \<Rightarrow>
               Inr (pool_monitor_shrunk (remove_idle_threads_from it count st1))
           | _ \<Rightarrow> Inr st1))"

section \<open>The constructor\<close>

definition impl_ctor :: "uint \<Rightarrow> uint \<Rightarrow> uint \<Rightarrow> uint \<Rightarrow> uint \<Rightarrow> shutdown_option \<Rightarrow> error + pool_state" where
  "impl_ctor hw min_threads max_threads timeout_add_threads timeout_del_threads on_shutdown =
     (let st0 = \<lparr>m_stopPool = False,
                  m_minThreads = compute_min_threads hw min_threads max_threads,
                  m_maxThreads = max_threads,
                  m_resizeUpTolerance = timeout_add_threads,
                  m_resizeDownTolerance = timeout_del_threads,
                  m_onShutdown = on_shutdown,
                  m_activeTasks = 0,
                  m_threadCount = 0,
                  m_pendingTasks = [],
                  m_threads = [],
                  resize_flag = flag_no_resize,
                  step_count = 0,
                  next_pool_size = 0,
                  monitor_at = mon_loop_head,
                  destructor_at = dtor_not_called,
                  remove_thread_t = None\<rparr>
      in if \<not> m_minThreads st0 \<le> m_maxThreads st0 then Inl assertion_failed
         else (let st1 = add_threads_up_to (m_minThreads st0) st0
               in if m_minThreads st1 < m_maxThreads st1
                  then (case schedule st1 pool_monitor_bound invalid_system_time of
                          Inl e \<Rightarrow> Inl e
                        | Inr (st2, signals) \<Rightarrow> Inr st2)
                  else Inr st1))"

section \<open>The worker\<close>

text \<open>
  The end of the critical section of \<open>worker_thread\<close>: the front task is taken; a task
  that is not on schedule is pushed again and the worker goes to the \<open>timed_wait\<close>.
  \<open>front()\<close> of an empty queue has no result.
\<close>

definition worker_dequeue :: "int \<Rightarrow> pool_state \<Rightarrow> pool_thread \<Rightarrow> (pool_state \<times> pool_thread) option" where
  "worker_dequeue now st w =
     (case m_pendingTasks st of
        [] \<Rightarrow> None
      | task # rest \<Rightarrow>
          if is_on_schedule now task = False
          then Some (st\<lparr>m_pendingTasks := rest @ [task]\<rparr>, w\<lparr>pc := pc_timed_wait\<rparr>)
          else Some (st\<lparr>m_pendingTasks := rest\<rparr>, w\<lparr>pc := pc_dequeued task\<rparr>))"

text \<open>The head of the inner \<open>while\<close> loop: wait on an empty queue, dequeue otherwise.\<close>

definition worker_wait_or_dequeue :: "int \<Rightarrow> pool_state \<Rightarrow> pool_thread \<Rightarrow> (pool_state \<times> pool_thread) option" where
  "worker_wait_or_dequeue now st w =
     (if m_pendingTasks st = [] then Some (st, w\<lparr>m_busy := False, pc := pc_wait\<rparr>)
      else worker_dequeue now st w)"

text \<open>
  One step of a worker, from one control point to the next.  A wait may end at any
  time (a notification, a timeout or a spurious wake); both waits are interruption
  points, and only the first is inside the \<open>try\<close> block, but either way the thread
  ends.  The body of a user's task returns when it wants to; the body of the monitor
  returns from the head of its loop once \<open>m_stopPool\<close> is set.  No step means the thread
  cannot move.
\<close>

definition worker_thread_step :: "int \<Rightarrow> pool_state \<Rightarrow> pool_thread \<Rightarrow> (pool_state \<times> pool_thread) option" where
  "worker_thread_step now st w =
     (case pc w of
        pc_loop_top \<Rightarrow>
          if m_stopPool st then Some (st, w\<lparr>pc := pc_exited\<rparr>)
          else worker_wait_or_dequeue now st w
      | pc_wait \<Rightarrow>
          if interrupt_requested w then Some (st, w\<lparr>pc := pc_exited\<rparr>)
          else if m_stopPool st then Some (st, w\<lparr>m_busy := True, pc := pc_exited\<rparr>)
          else worker_wait_or_dequeue now st (w\<lparr>m_busy := True\<rparr>)
      | pc_timed_wait \<Rightarrow>
          if interrupt_requested w then Some (st, w\<lparr>pc := pc_exited\<rparr>)
          else Some (st, w\<lparr>pc := pc_loop_top\<rparr>)
      | pc_dequeued task \<Rightarrow>
          Some (st\<lparr>m_activeTasks := m_activeTasks st + 1\<rparr>, w\<lparr>pc := pc_running task\<rparr>)
      | pc_running task \<Rightarrow>
          if m_task task = pool_monitor_bound \<and> \<not> (m_stopPool st \<and> monitor_at st = mon_loop_head)
          then None
          else Some (st\<lparr>m_activeTasks := m_activeTasks st - 1\<rparr>,
                     w\<lparr>pc := (if interrupt_requested w then pc_exited else pc_loop_top)\<rparr>)
      | pc_exited \<Rightarrow> None)"

section \<open>The destructor\<close>

text \<open>
  From \<open>m_stopPool = true\<close> to the head of the last loop.  When there is a monitor the
  destructor takes \<open>m_threadsMutex\<close>, which the monitor gives up only in its
  \<open>timed_wait\<close>.  Then the queue is emptied, or the destructor polls until no task is
  active or pending.
\<close>

definition destructor_shutdown :: "pool_state \<Rightarrow> pool_state option" where
  "destructor_shutdown st =
     (if m_minThreads st < m_maxThreads st \<and> monitor_at st \<noteq> mon_loop_head then None
      else if m_onShutdown st = shutdown_option_cancel_tasks
      then Some (st\<lparr>m_pendingTasks := [], destructor_at := dtor_remove_loop\<rparr>)
      else if active_tasks st > 0 \<or> pending_tasks st > 0 then None
      else Some (st\<lparr>destructor_at := dtor_remove_loop\<rparr>))"

text \<open>
  \<open>remove_thread\<close> up to \<open>t->interrupt()\<close>; \<open>back()\<close> of an empty list has no result.
  The \<open>join\<close> that follows returns when the thread has ended.
\<close>

definition remove_thread_interrupt :: "pool_state \<Rightarrow> pool_state option" where
  "remove_thread_interrupt st =
     (if m_threads st = [] then None
      else Some (st\<lparr>m_threads := butlast (m_threads st),
                     m_threadCount := m_threadCount st - 1,
                     remove_thread_t := Some ((last (m_threads st))\<lparr>interrupt_requested := True\<rparr>),
                     destructor_at := dtor_in_join\<rparr>))"

definition remove_thread_join :: "pool_state \<Rightarrow> pool_state option" where
  "remove_thread_join st =
     (case remove_thread_t st of
        None \<Rightarrow> None
      | Some t \<Rightarrow>
          if pc t = pc_exited
          then Some (st\<lparr>remove_thread_t := None, destructor_at := dtor_remove_loop\<rparr>)
          else None)"

section \<open>The pool as a transition system\<close>

text \<open>
  The threads of the program interleave their steps.  A step is one critical section
  or one access to an atomic counter:
  \<^item> a client calls \<open>schedule\<close> with a task of its own;
  \<^item> a worker moves on (the clock reads \<open>now\<close>): the one at a position of \<open>m_threads\<close>, the
    one that \<open>add_thread\<close> has created and not yet pushed, or the one the destructor is
    joining;
  \<^item> the monitor runs an iteration up to the head of one of the two inner loops; it
    goes once round the growing loop, up to \<open>make_shared\<close>, then does the \<open>push_back\<close>,
    then the increment; in \<open>remove_idle_threads\<close> it examines the worker under the
    iterator, then decrements the counters, then joins and erases;
  \<^item> the destructor moves on.

  The monitor is the only writer of \<open>m_threadCount\<close> and \<open>m_threads\<close> until the destructor
  has taken \<open>m_threadsMutex\<close>, so its reads of the counters at the head of an iteration
  are taken as one step.  A worker's busy flag is written and read under \<open>m_tasksMutex\<close>
  only.

  The constructor is taken as one step: the workers it creates are at the top of
  their loop, with \<open>m_busy\<close> set as \<open>pool_thread\<close> initialises it, and take their first
  step after the constructor has returned.
\<close>

datatype action =
    Schedule nat system_time
  | Worker nat int
  | Added_worker int
  | Removed_worker int
  | Monitor_begin
  | Monitor_grow
  | Monitor_push
  | Monitor_count
  | Monitor_examine
  | Monitor_decrement
  | Monitor_join
  | Destructor_stop
  | Destructor_shutdown
  | Destructor_remove_thread
  | Destructor_join

definition is_running_monitor :: "pool_thread \<Rightarrow> bool" where
  "is_running_monitor w =
     (case pc w of pc_running task \<Rightarrow> m_task task = pool_monitor_bound | _ \<Rightarrow> False)"

definition monitor_running :: "pool_state \<Rightarrow> bool" where
  "monitor_running st =
     (list_ex is_running_monitor (m_threads st) \<or>
      (case remove_thread_t st of None \<Rightarrow> False | Some t \<Rightarrow> is_running_monitor t))"

fun step :: "pool_state \<Rightarrow> action \<Rightarrow> pool_state option" where
  "step st (Schedule n abs_time) =
     (case schedule st (user_function n) abs_time of
        Inl e \<Rightarrow> None
      | Inr (st', signals) \<Rightarrow> Some st')"
| "step st (Worker i now) =
     (if i < length (m_threads st)
      then (case worker_thread_step now st (m_threads st ! i) of
              None \<Rightarrow> None
            | Some (st', w') \<Rightarrow> Some (st'\<lparr>m_threads := (m_threads st')[i := w']\<rparr>))
      else None)"
| "step st (Added_worker now) =
     (case monitor_at st of
        mon_add_thread_made t \<Rightarrow>
          (case worker_thread_step now st t of
             None \<Rightarrow> None
           | Some (st', t') \<Rightarrow> Some (st'\<lparr>monitor_at := mon_add_thread_made t'\<rparr>))
      | _ \<Rightarrow> None)"
| "step st (Removed_worker now) =
     (case remove_thread_t st of
        None \<Rightarrow> None
      | Some w \<Rightarrow>
          (case worker_thread_step now st w of
             None \<Rightarrow> None
           | Some (st', w') \<Rightarrow> Some (st'\<lparr>remove_thread_t := Some w'\<rparr>)))"
| "step st Monitor_begin =
     (if monitor_running st \<and> monitor_at st = mon_loop_head \<and> m_stopPool st = False
      then (case pool_monitor_begin st of Inl e \<Rightarrow> None | Inr st' \<Rightarrow> Some st')
      else None)"
| "step st Monitor_grow =
     (if monitor_running st \<and> monitor_at st = mon_grow_loop
      then Some (if pool_size st < next_pool_size st
                 then st\<lparr>monitor_at := mon_add_thread_made new_thread\<rparr>
                 else pool_monitor_grown st)
      else None)"
| "step st Monitor_push =
     (case monitor_at st of
        mon_add_thread_made t \<Rightarrow>
          if monitor_running st
          then Some ((add_thread_push t st)\<lparr>monitor_at := mon_add_thread_pushed\<rparr>)
          else None
      | _ \<Rightarrow> None)"
| "step st Monitor_count =
     (if monitor_running st \<and> monitor_at st = mon_add_thread_pushed
      then Some ((add_thread_count st)\<lparr>monitor_at := mon_grow_loop\<rparr>)
      else None)"
| "step st Monitor_examine =
     (case monitor_at st of
        mon_remove_idle_loop it count \<Rightarrow>
          if monitor_running st
          then Some (if it < length (m_threads st) \<and> count > 0
                     then remove_idle_examine it count st
                     else pool_monitor_shrunk st)
          else None
      | _ \<Rightarrow> None)"
| "step st Monitor_decrement =
     (case monitor_at st of
        mon_remove_idle_interrupted it count \<Rightarrow>
          if monitor_running st then Some (remove_idle_decrement it count st) else None
      | _ \<Rightarrow> None)"
| "step st Monitor_join =
     (case monitor_at st of
        mon_remove_idle_join it count \<Rightarrow>
          if monitor_running st then remove_idle_erase it count st else None
      | _ \<Rightarrow> None)"
| "step st Destructor_stop =
     (if destructor_at st = dtor_not_called
      then Some (st\<lparr>m_stopPool := True, destructor_at := dtor_stopped\<rparr>)
      else None)"
| "step st Destructor_shutdown =
     (if destructor_at st = dtor_stopped then destructor_shutdown st else None)"
| "step st Destructor_remove_thread =
     (if destructor_at st = dtor_remove_loop \<and> pool_size st > 0
      then remove_thread_interrupt st
      else None)"
| "step st Destructor_join =
     (if destructor_at st = dtor_in_join then remove_thread_join st else None)"

fun run :: "pool_state \<Rightarrow> action list \<Rightarrow> pool_state option" where
  "run st [] = Some st"
| "run st (a # as) = (case step st a of None \<Rightarrow> None | Some st' \<Rightarrow> run st' as)"

text \<open>
  The steps of the monitor's growing loop when it adds \<open>k\<close> threads and nothing
  interrupts it: a turn of the loop, the \<open>push_back\<close> and the increment, \<open>k\<close> times, and
  the turn that leaves the loop.
\<close>

fun grow_actions :: "nat \<Rightarrow> action list" where
  "grow_actions 0 = [Monitor_grow]"
| "grow_actions (Suc k) = Monitor_grow # Monitor_push # Monitor_count # grow_actions k"

text \<open>
  The steps of the loop of \<open>remove_idle_threads\<close> over the list \<open>ws\<close> when nothing
  interrupts it: a busy worker is examined; an idle one is examined, the counters are
  decremented, the worker takes its step out of the wait, and the monitor joins it and
  erases it; the last examination leaves the loop.
\<close>

function remove_idle_actions :: "nat \<Rightarrow> uint \<Rightarrow> pool_thread list \<Rightarrow> action list" where
  "remove_idle_actions it count ws =
     (if it < length ws \<and> count > 0 then
        (if m_busy (ws ! it) then Monitor_examine # remove_idle_actions (it + 1) count ws
         else Monitor_examine # Monitor_decrement # Worker it 0 # Monitor_join #
                remove_idle_actions it (count - 1) (take it ws @ drop (Suc it) ws))
      else [Monitor_examine])"
  by pat_completeness auto
termination
  by (relation "measure (\<lambda>(it, count, ws). length ws - it)") auto

section \<open>Idle workers and the reach of the scan\<close>

text \<open>An idle worker is one whose busy flag is clear.\<close>

definition idle_thread :: "pool_thread \<Rightarrow> bool" where
  "idle_thread th = (\<not> m_busy th)"

text \<open>
  How many workers of the list \<open>ws\<close> a scan examines that is to remove \<open>count\<close> of them
  and reads the busy flags as they stand in \<open>ws\<close>: it goes on until \<open>count\<close> idle workers
  have been met, or to the end.
\<close>

fun remove_idle_scanned :: "nat \<Rightarrow> pool_thread list \<Rightarrow> nat" where
  "remove_idle_scanned count [] = 0"
| "remove_idle_scanned count (th # rest) =
     (if count = 0 then 0
      else Suc (remove_idle_scanned (if m_busy th then count else count - 1) rest))"

section \<open>The words of the specification\<close>

text \<open>
  The resolution of the automatic minimum as the specification words it:
  \<open>clamp(hardware_parallelism \<times> 2, 1, max)\<close>, the product taken in \<open>unsigned int\<close> as
  the code's is.  Where the bounds cross (\<open>max = 0\<close>) the upper bound wins.
\<close>

definition spec_clamp :: "uint \<Rightarrow> uint \<Rightarrow> uint \<Rightarrow> uint" where
  "spec_clamp x lo hi = min (max x lo) hi"

definition spec_resolved_min :: "uint \<Rightarrow> uint \<Rightarrow> uint \<Rightarrow> uint" where
  "spec_resolved_min hw min_threads max_threads =
     (if min_threads = - 1 then spec_clamp (hw * 2) 1 max_threads else min_threads)"

section \<open>Invariants\<close>

text \<open>A worker is running when it is inside a task body.\<close>

definition is_running :: "pool_thread \<Rightarrow> bool" where
  "is_running w = (case pc w of pc_running task \<Rightarrow> True | _ \<Rightarrow> False)"

text \<open>
  The threads that have been started and not yet erased or popped: those of \<open>m_threads\<close>,
  and the one that \<open>add_thread\<close> has created and not yet pushed.
\<close>

fun created_thread :: "monitor_pc \<Rightarrow> pool_thread list" where
  "created_thread (mon_add_thread_made t) = [t]"
| "created_thread _ = []"

definition started_threads :: "pool_state \<Rightarrow> pool_thread list" where
  "started_threads st = m_threads st @ created_thread (monitor_at st)"

text \<open>The monitor is inside \<open>add_thread\<close>.\<close>

fun in_add_thread :: "monitor_pc \<Rightarrow> bool" where
  "in_add_thread (mon_add_thread_made t) = True"
| "in_add_thread mon_add_thread_pushed = True"
| "in_add_thread _ = False"

text \<open>
  By how much \<open>m_threads\<close> is longer than \<open>m_threadCount\<close> says: by one after a \<open>push_back\<close>
  that is not yet counted, and while the monitor joins a thread it has already taken
  off the count.
\<close>

fun uncounted :: "monitor_pc \<Rightarrow> nat" where
  "uncounted mon_add_thread_pushed = 1"
| "uncounted (mon_remove_idle_join it count) = 1"
| "uncounted _ = 0"

text \<open>The position of the worker that the monitor has interrupted and not yet erased.\<close>

fun leaving_at :: "monitor_pc \<Rightarrow> nat option" where
  "leaving_at (mon_remove_idle_interrupted it count) = Some it"
| "leaving_at (mon_remove_idle_join it count) = Some it"
| "leaving_at _ = None"

text \<open>
  A worker in good standing: when its busy flag is clear it is blocked in the wait on
  the condition, and nobody has interrupted it.  A worker on its way out: its busy flag
  is clear, it has been interrupted, and it is still in the wait or has returned.
\<close>

definition worker_ok :: "pool_thread \<Rightarrow> bool" where
  "worker_ok w \<longleftrightarrow> (\<not> m_busy w \<longrightarrow> pc w = pc_wait) \<and> \<not> interrupt_requested w"

definition worker_leaving :: "pool_thread \<Rightarrow> bool" where
  "worker_leaving w \<longleftrightarrow>
     \<not> m_busy w \<and> interrupt_requested w \<and> (pc w = pc_wait \<or> pc w = pc_exited)"

text \<open>
  What holds inside \<open>remove_idle_threads\<close>: the iterator is in the list (at the end at
  most, when the loop is at its head); what is left of \<open>count\<close> is what \<open>m_threadCount\<close> is
  above \<open>next_pool_size\<close>, which is at least \<open>m_minThreads\<close>.
\<close>

fun scan_inv :: "monitor_pc \<Rightarrow> pool_state \<Rightarrow> bool" where
  "scan_inv (mon_remove_idle_loop it count) st \<longleftrightarrow>
     it \<le> length (m_threads st) \<and> m_minThreads st \<le> next_pool_size st \<and>
     unat (m_threadCount st) = unat (next_pool_size st) + unat count"
| "scan_inv (mon_remove_idle_interrupted it count) st \<longleftrightarrow>
     it < length (m_threads st) \<and> m_minThreads st \<le> next_pool_size st \<and>
     unat (m_threadCount st) = unat (next_pool_size st) + unat count \<and> 0 < count"
| "scan_inv (mon_remove_idle_join it count) st \<longleftrightarrow>
     it < length (m_threads st) \<and> m_minThreads st \<le> next_pool_size st \<and>
     unat (m_threadCount st) = unat (next_pool_size st) + unat count"
| "scan_inv _ st \<longleftrightarrow> True"

text \<open>
  What holds of a pool from its construction until the destructor sets \<open>m_stopPool\<close>:
  \<open>m_activeTasks\<close> counts the running threads; \<open>m_threadCount\<close> is the length of
  \<open>m_threads\<close>, but for a thread pushed and not yet counted, or taken off the count and
  not yet erased; inside \<open>add_thread\<close> the count is below \<open>next_pool_size\<close>; outside the
  head of the monitor's loop \<open>next_pool_size\<close> is at most \<open>m_maxThreads\<close>; \<open>m_threadCount\<close>
  lies between \<open>m_minThreads\<close> and \<open>m_maxThreads\<close>; every thread is in good standing,
  but the one the monitor has interrupted, which is on its way out; the monitor is
  at the head of its loop unless a worker runs it; the destructor has not been called.
\<close>

definition pool_inv :: "pool_state \<Rightarrow> bool" where
  "pool_inv st \<longleftrightarrow>
     unat (m_activeTasks st) = length (filter is_running (started_threads st)) \<and>
     length (started_threads st) < 2 ^ 32 \<and>
     length (m_threads st) = unat (m_threadCount st) + uncounted (monitor_at st) \<and>
     (in_add_thread (monitor_at st) \<longrightarrow> m_threadCount st < next_pool_size st) \<and>
     (monitor_at st \<noteq> mon_loop_head \<longrightarrow> next_pool_size st \<le> m_maxThreads st) \<and>
     m_minThreads st \<le> m_threadCount st \<and>
     m_threadCount st \<le> m_maxThreads st \<and>
     (\<forall>i < length (started_threads st).
        if leaving_at (monitor_at st) = Some i then worker_leaving (started_threads st ! i)
        else worker_ok (started_threads st ! i)) \<and>
     scan_inv (monitor_at st) st \<and>
     (monitor_at st \<noteq> mon_loop_head \<longrightarrow> monitor_running st) \<and>
     destructor_at st = dtor_not_called \<and>
     remove_thread_t st = None"

text \<open>A worker holds the monitor when it has dequeued it, whether it runs it yet or not.\<close>

definition holds_monitor :: "pool_thread \<Rightarrow> bool" where
  "holds_monitor w =
     (case pc w of
        pc_dequeued task \<Rightarrow> m_task task = pool_monitor_bound
      | pc_running task \<Rightarrow> m_task task = pool_monitor_bound
      | _ \<Rightarrow> False)"

text \<open>A pool without a monitor: none in the queue, none held by a thread.\<close>

definition no_monitor :: "pool_state \<Rightarrow> bool" where
  "no_monitor st \<longleftrightarrow>
     list_all (\<lambda>task. m_task task \<noteq> pool_monitor_bound) (m_pendingTasks st) \<and>
     list_all (\<lambda>w. \<not> holds_monitor w) (started_threads st) \<and>
     (case remove_thread_t st of None \<Rightarrow> True | Some t \<Rightarrow> \<not> holds_monitor t)"

text \<open>The destructor has not reached its last loop, where it removes the threads.\<close>

definition before_remove_loop :: "pool_state \<Rightarrow> bool" where
  "before_remove_loop st \<longleftrightarrow>
     destructor_at st = dtor_not_called \<or> destructor_at st = dtor_stopped"

text \<open>
  What holds of a pool constructed with a minimum of 0 and a maximum above 1, for all
  its life: at most one worker, exactly one until the destructor removes it; the flag is
  never \<open>down\<close>; the monitor never is inside \<open>add_thread\<close> or \<open>remove_idle_threads\<close>, and
  enters its growing loop only with a target no larger than the pool.
\<close>

definition pool_of_one :: "pool_state \<Rightarrow> bool" where
  "pool_of_one st \<longleftrightarrow>
     m_threadCount st \<le> 1 \<and>
     length (m_threads st) = unat (m_threadCount st) \<and>
     resize_flag st \<noteq> flag_resize_down \<and>
     (monitor_at st = mon_loop_head \<or> monitor_at st = mon_grow_loop) \<and>
     (monitor_at st = mon_grow_loop \<longrightarrow>
        next_pool_size st \<le> m_threadCount st \<and> before_remove_loop st) \<and>
     (destructor_at st \<noteq> dtor_not_called \<longrightarrow> m_stopPool st) \<and>
     m_minThreads st < m_maxThreads st \<and>
     (before_remove_loop st \<longrightarrow> m_threadCount st = 1)"

section \<open>States used as examples\<close>

definition monitor_task :: task_impl where
  "monitor_task = \<lparr>m_task = pool_monitor_bound, m_schedule = not_a_date_time\<rparr>"

text \<open>Two workers, both inside a task, one task waiting, the flag already up.\<close>

definition example_saturated :: pool_state where
  "example_saturated =
     \<lparr>m_stopPool = False, m_minThreads = 2, m_maxThreads = 16,
      m_resizeUpTolerance = 100, m_resizeDownTolerance = 500,
      m_onShutdown = shutdown_option_cancel_tasks,
      m_activeTasks = 2, m_threadCount = 2,
      m_pendingTasks = [\<lparr>m_task = user_function 7, m_schedule = not_a_date_time\<rparr>],
      m_threads = [new_thread\<lparr>pc := pc_running monitor_task\<rparr>,
                   new_thread\<lparr>pc := pc_running \<lparr>m_task = user_function 6, m_schedule = not_a_date_time\<rparr>\<rparr>],
      resize_flag = flag_resize_up, step_count = 5, next_pool_size = 0,
      monitor_at = mon_loop_head, destructor_at = dtor_not_called, remove_thread_t = None\<rparr>"

text \<open>Three tasks waiting: one due at 200, one with no time, one due at 50.\<close>

definition example_deferred :: pool_state where
  "example_deferred =
     example_saturated\<lparr>m_pendingTasks :=
       [\<lparr>m_task = user_function 1, m_schedule = time_point 200\<rparr>,
        \<lparr>m_task = user_function 2, m_schedule = not_a_date_time\<rparr>,
        \<lparr>m_task = user_function 3, m_schedule = time_point 50\<rparr>]\<rparr>"

text \<open>
  The state the constructor leaves when the computed minimum is \<open>m\<close>: \<open>m\<close> new threads,
  and the monitor in the queue when \<open>m\<close> is below the maximum.
\<close>

definition constructed :: "uint \<Rightarrow> uint \<Rightarrow> uint \<Rightarrow> uint \<Rightarrow> shutdown_option \<Rightarrow> pool_state" where
  "constructed m max_threads timeout_add timeout_del on_shutdown =
     \<lparr>m_stopPool = False, m_minThreads = m, m_maxThreads = max_threads,
      m_resizeUpTolerance = timeout_add, m_resizeDownTolerance = timeout_del,
      m_onShutdown = on_shutdown, m_activeTasks = 0, m_threadCount = m,
      m_pendingTasks = (if m < max_threads then [monitor_task] else []),
      m_threads = replicate (unat m) new_thread,
      resize_flag = flag_no_resize, step_count = 0,
      next_pool_size = 0, monitor_at = mon_loop_head, destructor_at = dtor_not_called,
      remove_thread_t = None\<rparr>"

text \<open>Workers and tasks of the examples.\<close>

definition user_task :: "nat \<Rightarrow> task_impl" where
  "user_task n = \<lparr>m_task = user_function n, m_schedule = not_a_date_time\<rparr>"

definition idle_worker :: pool_thread where
  "idle_worker = \<lparr>m_busy = False, pc = pc_wait, interrupt_requested = False\<rparr>"

definition monitor_worker :: pool_thread where
  "monitor_worker = new_thread\<lparr>pc := pc_running monitor_task\<rparr>"

definition running_worker :: "nat \<Rightarrow> pool_thread" where
  "running_worker n = new_thread\<lparr>pc := pc_running (user_task n)\<rparr>"

text \<open>
  A pool constructed with a minimum of 5, a maximum of 16 and no tolerances has six
  workers.  The first takes the monitor; six tasks are submitted and five workers take
  one each, so that all six workers are active and one task waits; two iterations of the
  monitor raise the flag and count one step.
\<close>

definition example_grow_trace :: "action list" where
  "example_grow_trace =
     [Worker 0 0, Worker 0 0,
      Schedule 1 not_a_date_time, Schedule 2 not_a_date_time, Schedule 3 not_a_date_time,
      Schedule 4 not_a_date_time, Schedule 5 not_a_date_time, Schedule 6 not_a_date_time,
      Worker 1 0, Worker 1 0, Worker 2 0, Worker 2 0, Worker 3 0, Worker 3 0,
      Worker 4 0, Worker 4 0, Worker 5 0, Worker 5 0,
      Monitor_begin, Monitor_begin]"

definition example_full :: pool_state where
  "example_full =
     \<lparr>m_stopPool = False, m_minThreads = 6, m_maxThreads = 16,
      m_resizeUpTolerance = 0, m_resizeDownTolerance = 0,
      m_onShutdown = shutdown_option_cancel_tasks,
      m_activeTasks = 6, m_threadCount = 6,
      m_pendingTasks = [user_task 6],
      m_threads = [monitor_worker, running_worker 1, running_worker 2, running_worker 3,
                   running_worker 4, running_worker 5],
      resize_flag = flag_resize_up, step_count = 1, next_pool_size = 0,
      monitor_at = mon_loop_head, destructor_at = dtor_not_called, remove_thread_t = None\<rparr>"

text \<open>
  From there the monitor grows the pool to nine, the tasks finish and all workers but
  the monitor's go to wait.  A task due at 100 is submitted; the third worker wakes,
  finds it not yet due at 0, queues it again and sleeps in the \<open>timed_wait\<close>, its busy
  flag set.  Two iterations of the monitor lower the flag and count one step.
\<close>

definition example_shrink_trace :: "action list" where
  "example_shrink_trace =
     [Monitor_begin,
      Monitor_grow, Monitor_push, Monitor_count,
      Monitor_grow, Monitor_push, Monitor_count,
      Monitor_grow, Monitor_push, Monitor_count,
      Monitor_grow,
      Worker 6 0, Worker 6 0,
      Worker 1 0, Worker 2 0, Worker 3 0, Worker 4 0, Worker 5 0, Worker 6 0,
      Worker 1 0, Worker 2 0, Worker 3 0, Worker 4 0, Worker 5 0, Worker 6 0, Worker 7 0,
      Worker 8 0,
      Schedule 9 (time_point 100), Worker 2 0,
      Monitor_begin, Monitor_begin]"

definition deferring_worker :: pool_thread where
  "deferring_worker = new_thread\<lparr>pc := pc_timed_wait\<rparr>"

definition example_idle :: pool_state where
  "example_idle =
     \<lparr>m_stopPool = False, m_minThreads = 6, m_maxThreads = 16,
      m_resizeUpTolerance = 0, m_resizeDownTolerance = 0,
      m_onShutdown = shutdown_option_cancel_tasks,
      m_activeTasks = 1, m_threadCount = 9,
      m_pendingTasks = [\<lparr>m_task = user_function 9, m_schedule = time_point 100\<rparr>],
      m_threads = [monitor_worker, idle_worker, deferring_worker, idle_worker, idle_worker,
                   idle_worker, idle_worker, idle_worker, idle_worker],
      resize_flag = flag_resize_down, step_count = 1, next_pool_size = 9,
      monitor_at = mon_loop_head, destructor_at = dtor_not_called, remove_thread_t = None\<rparr>"

text \<open>
  From there the shrink step fires and asks for the removal of three workers.  The
  scan passes over the monitor's worker and interrupts the second worker.  Before the
  monitor joins it, the fourth worker wakes and takes the task, still not due, so that
  its busy flag is set when the scan comes to it.
\<close>

definition example_scan_trace :: "action list" where
  "example_scan_trace =
     [Monitor_begin, Monitor_examine, Monitor_examine, Monitor_decrement, Worker 3 50]"

definition example_scan :: pool_state where
  "example_scan =
     \<lparr>m_stopPool = False, m_minThreads = 6, m_maxThreads = 16,
      m_resizeUpTolerance = 0, m_resizeDownTolerance = 0,
      m_onShutdown = shutdown_option_cancel_tasks,
      m_activeTasks = 1, m_threadCount = 8,
      m_pendingTasks = [\<lparr>m_task = user_function 9, m_schedule = time_point 100\<rparr>],
      m_threads = [monitor_worker, idle_worker\<lparr>interrupt_requested := True\<rparr>, deferring_worker,
                   deferring_worker, idle_worker, idle_worker, idle_worker, idle_worker,
                   idle_worker],
      resize_flag = flag_resize_down, step_count = 2, next_pool_size = 6,
      monitor_at = mon_remove_idle_join 1 2, destructor_at = dtor_not_called,
      remove_thread_t = None\<rparr>"

text \<open>A pool of 5592409 workers, all active, the flag up and one step short of growing.\<close>

definition example_5592409 :: pool_state where
  "example_5592409 =
     \<lparr>m_stopPool = False, m_minThreads = 5592409, m_maxThreads = 10000000,
      m_resizeUpTolerance = 100, m_resizeDownTolerance = 120000,
      m_onShutdown = shutdown_option_wait_for_tasks,
      m_activeTasks = 5592409, m_threadCount = 5592409,
      m_pendingTasks = [user_task 0],
      m_threads = monitor_worker # replicate 5592408 (running_worker 1),
      resize_flag = flag_resize_up, step_count = 99, next_pool_size = 0,
      monitor_at = mon_loop_head, destructor_at = dtor_not_called, remove_thread_t = None\<rparr>"

text \<open>
  A pool of one worker and no monitor: a task is submitted and started, and the
  destructor, told to cancel, sets the flag, empties the queue and begins
  \<open>remove_thread\<close>.
\<close>

definition example_destroy_trace :: "action list" where
  "example_destroy_trace =
     [Schedule 1 not_a_date_time, Worker 0 0, Worker 0 0,
      Destructor_stop, Destructor_shutdown, Destructor_remove_thread]"

definition example_destroying :: pool_state where
  "example_destroying =
     \<lparr>m_stopPool = True, m_minThreads = 1, m_maxThreads = 1,
      m_resizeUpTolerance = 100, m_resizeDownTolerance = 500,
      m_onShutdown = shutdown_option_cancel_tasks,
      m_activeTasks = 1, m_threadCount = 0,
      m_pendingTasks = [],
      m_threads = [],
      resize_flag = flag_no_resize, step_count = 0, next_pool_size = 0,
      monitor_at = mon_loop_head, destructor_at = dtor_in_join,
      remove_thread_t = Some ((running_worker 1)\<lparr>interrupt_requested := True\<rparr>)\<rparr>"

text \<open>
  From the saturated pool of six: the monitor's third iteration starts the growing
  loop, \<open>add_thread\<close> creates a seventh thread, and that thread takes the waiting task
  and starts it before the monitor has pushed it into \<open>m_threads\<close> or incremented
  \<open>m_threadCount\<close>.
\<close>

definition example_window_trace :: "action list" where
  "example_window_trace = [Monitor_begin, Monitor_grow, Added_worker 0, Added_worker 0]"

definition example_window :: pool_state where
  "example_window =
     \<lparr>m_stopPool = False, m_minThreads = 6, m_maxThreads = 16,
      m_resizeUpTolerance = 0, m_resizeDownTolerance = 0,
      m_onShutdown = shutdown_option_cancel_tasks,
      m_activeTasks = 7, m_threadCount = 6,
      m_pendingTasks = [],
      m_threads = [monitor_worker, running_worker 1, running_worker 2, running_worker 3,
                   running_worker 4, running_worker 5],
      resize_flag = flag_resize_up, step_count = 2, next_pool_size = 9,
      monitor_at = mon_add_thread_made (running_worker 6), destructor_at = dtor_not_called,
      remove_thread_t = None\<rparr>"

text \<open>
  A pool constructed with a minimum of 0 and a maximum of 2: its one worker takes the
  monitor, a task is submitted, and two iterations raise the flag and count one step.
\<close>

definition example_one_trace :: "action list" where
  "example_one_trace =
     [Worker 0 0, Worker 0 0, Schedule 1 not_a_date_time, Monitor_begin, Monitor_begin]"

definition example_one :: pool_state where
  "example_one =
     \<lparr>m_stopPool = False, m_minThreads = 1, m_maxThreads = 2,
      m_resizeUpTolerance = 0, m_resizeDownTolerance = 0,
      m_onShutdown = shutdown_option_cancel_tasks,
      m_activeTasks = 1, m_threadCount = 1,
      m_pendingTasks = [user_task 1],
      m_threads = [monitor_worker],
      resize_flag = flag_resize_up, step_count = 1, next_pool_size = 0,
      monitor_at = mon_loop_head, destructor_at = dtor_not_called, remove_thread_t = None\<rparr>"

text \<open>
  A pool constructed with a minimum of 2 and a maximum of 3: three workers, no monitor;
  a task is submitted and started, and a second worker goes to wait.
\<close>

definition example_fixed_trace :: "action list" where
  "example_fixed_trace = [Schedule 1 not_a_date_time, Worker 0 0, Worker 0 0, Worker 1 0]"

definition example_fixed :: pool_state where
  "example_fixed =
     \<lparr>m_stopPool = False, m_minThreads = 3, m_maxThreads = 3,
      m_resizeUpTolerance = 100, m_resizeDownTolerance = 500,
      m_onShutdown = shutdown_option_cancel_tasks,
      m_activeTasks = 1, m_threadCount = 3,
      m_pendingTasks = [],
      m_threads = [running_worker 1, idle_worker, new_thread],
      resize_flag = flag_no_resize, step_count = 0, next_pool_size = 0,
      monitor_at = mon_loop_head, destructor_at = dtor_not_called, remove_thread_t = None\<rparr>"

section \<open>The classification and the hysteresis counter\<close>

text \<open>
  C1.  The classification of an iteration is \<open>up\<close> exactly when \<open>active_tasks\<close> equals
  \<open>pool_size\<close> and the queue is not empty; otherwise \<open>down\<close> exactly when \<open>active_tasks\<close> is
  below \<open>pool_size / 4\<close> (unsigned division); otherwise \<open>none\<close>.  When it differs from
  the resize flag, the flag takes it and the step count becomes 0; otherwise the step
  count is incremented, and the iteration goes on with the two threshold tests on the
  incremented count; when neither fires, the incremented count is all that changes.
\<close>

theorem C1_step_classification:
  "(step_flag st = flag_resize_up \<longleftrightarrow>
      active_tasks st = pool_size st \<and> m_pendingTasks st \<noteq> []) \<and>
   (step_flag st = flag_resize_down \<longleftrightarrow>
      \<not> (active_tasks st = pool_size st \<and> m_pendingTasks st \<noteq> []) \<and>
      active_tasks st < pool_size st div 4) \<and>
   (step_flag st = flag_no_resize \<longleftrightarrow>
      \<not> (active_tasks st = pool_size st \<and> m_pendingTasks st \<noteq> []) \<and>
      \<not> active_tasks st < pool_size st div 4) \<and>
   (step_flag st \<noteq> resize_flag st \<longrightarrow>
      pool_monitor_begin st = Inr (st\<lparr>step_count := 0, resize_flag := step_flag st\<rparr>)) \<and>
   (step_flag st = resize_flag st \<longrightarrow>
      pool_monitor_begin st = pool_monitor_resize (st\<lparr>step_count := step_count st + 1\<rparr>)) \<and>
   (step_flag st = resize_flag st \<and>
    \<not> (resize_flag st = flag_resize_up \<and> step_count st + 1 = MAX_STEPS_UP st) \<and>
    \<not> (resize_flag st = flag_resize_down \<and> step_count st + 1 = MAX_STEPS_DOWN st) \<longrightarrow>
      pool_monitor_begin st = Inr (st\<lparr>step_count := step_count st + 1\<rparr>))"
  by (auto simp: step_flag_def pool_monitor_begin_def pool_monitor_resize_def Let_def
      MAX_STEPS_UP_def MAX_STEPS_DOWN_def)

theorem C1_step_classification_witness:
  "step_flag example_saturated = resize_flag example_saturated \<and>
   pool_monitor_begin example_saturated = Inr (example_saturated\<lparr>step_count := 6\<rparr>) \<and>
   step_flag (example_saturated\<lparr>resize_flag := flag_no_resize\<rparr>) \<noteq> flag_no_resize \<and>
   pool_monitor_begin (example_saturated\<lparr>resize_flag := flag_no_resize\<rparr>) =
     Inr (example_saturated\<lparr>step_count := 0\<rparr>)"
  using C1_step_classification [of example_saturated]
    C1_step_classification [of "example_saturated\<lparr>resize_flag := flag_no_resize\<rparr>"]
  by (simp add: example_saturated_def step_flag_def active_tasks_def pool_size_def
      pool_monitor_resize_def MAX_STEPS_UP_def)

section \<open>Submission\<close>

text \<open>
  C6.  For every state and every task that is not the empty function: with the
  shutdown flag set, \<open>schedule\<close> returns the state as it was and notifies nobody; with
  the flag clear, it appends one record at the tail of the queue, the records before it
  unchanged and in their order, and sends one \<open>notify_one\<close>.
\<close>

theorem C6_schedule:
  assumes "task \<noteq> empty_function"
  shows "(m_stopPool st \<longrightarrow> schedule st task abs_time = Inr (st, [])) \<and>
         (\<not> m_stopPool st \<longrightarrow>
            schedule st task abs_time =
              Inr (st\<lparr>m_pendingTasks := m_pendingTasks st @ [\<lparr>m_task = task, m_schedule = abs_time\<rparr>]\<rparr>,
                   [tasksCondition_notify_one]))"
  using assms by (simp add: schedule_def)

theorem C6_schedule_witness:
  "user_function 9 \<noteq> empty_function \<and>
   schedule example_saturated (user_function 9) (time_point 40) =
     Inr (example_saturated\<lparr>m_pendingTasks :=
            [\<lparr>m_task = user_function 7, m_schedule = not_a_date_time\<rparr>,
             \<lparr>m_task = user_function 9, m_schedule = time_point 40\<rparr>]\<rparr>,
          [tasksCondition_notify_one]) \<and>
   schedule (example_saturated\<lparr>m_stopPool := True\<rparr>) (user_function 9) (time_point 40) =
     Inr (example_saturated\<lparr>m_stopPool := True\<rparr>, [])"
  using C6_schedule [of "user_function 9" example_saturated "time_point 40"]
    C6_schedule [of "user_function 9" "example_saturated\<lparr>m_stopPool := True\<rparr>" "time_point 40"]
  by (simp add: example_saturated_def)

section \<open>Dequeueing\<close>

text \<open>
  C7.  A worker that dequeues takes the front task.  When the task carries a time
  strictly after the clock, it is appended again at the tail, the other entries keeping
  their order, and the worker's next step leads to the top of its loop (or out, when
  interrupted), not into the task.  When the task carries no time, or a time not after
  the clock, it leaves the queue and the worker's next step increments
  \<open>m_activeTasks\<close> and enters the task.  At the top of the loop, with the pool running
  and the queue not empty, the step of the worker is this dequeue.
\<close>

theorem C7_worker_dequeue:
  assumes "m_pendingTasks st = task # rest"
  shows "((\<exists>t. m_schedule task = time_point t \<and> now < t) \<longrightarrow>
            worker_dequeue now st w =
              Some (st\<lparr>m_pendingTasks := rest @ [task]\<rparr>, w\<lparr>pc := pc_timed_wait\<rparr>) \<and>
            worker_thread_step later (st\<lparr>m_pendingTasks := rest @ [task]\<rparr>) (w\<lparr>pc := pc_timed_wait\<rparr>) =
              Some (st\<lparr>m_pendingTasks := rest @ [task]\<rparr>,
                    w\<lparr>pc := (if interrupt_requested w then pc_exited else pc_loop_top)\<rparr>)) \<and>
         (m_schedule task = not_a_date_time \<or> (\<exists>t. m_schedule task = time_point t \<and> t \<le> now) \<longrightarrow>
            worker_dequeue now st w =
              Some (st\<lparr>m_pendingTasks := rest\<rparr>, w\<lparr>pc := pc_dequeued task\<rparr>) \<and>
            worker_thread_step later (st\<lparr>m_pendingTasks := rest\<rparr>) (w\<lparr>pc := pc_dequeued task\<rparr>) =
              Some (st\<lparr>m_pendingTasks := rest, m_activeTasks := m_activeTasks st + 1\<rparr>,
                    w\<lparr>pc := pc_running task\<rparr>)) \<and>
         (\<not> m_stopPool st \<and> pc w = pc_loop_top \<longrightarrow>
            worker_thread_step now st w = worker_dequeue now st w)"
  using assms
  by (auto simp: worker_dequeue_def is_on_schedule_def worker_thread_step_def
      worker_wait_or_dequeue_def)

theorem C7_worker_dequeue_witness:
  "m_pendingTasks example_deferred =
     \<lparr>m_task = user_function 1, m_schedule = time_point 200\<rparr> #
     [\<lparr>m_task = user_function 2, m_schedule = not_a_date_time\<rparr>,
      \<lparr>m_task = user_function 3, m_schedule = time_point 50\<rparr>] \<and>
   worker_dequeue 100 example_deferred new_thread =
     Some (example_deferred\<lparr>m_pendingTasks :=
             [\<lparr>m_task = user_function 2, m_schedule = not_a_date_time\<rparr>,
              \<lparr>m_task = user_function 3, m_schedule = time_point 50\<rparr>,
              \<lparr>m_task = user_function 1, m_schedule = time_point 200\<rparr>]\<rparr>,
           new_thread\<lparr>pc := pc_timed_wait\<rparr>) \<and>
   worker_dequeue 200 example_deferred new_thread =
     Some (example_deferred\<lparr>m_pendingTasks :=
             [\<lparr>m_task = user_function 2, m_schedule = not_a_date_time\<rparr>,
              \<lparr>m_task = user_function 3, m_schedule = time_point 50\<rparr>]\<rparr>,
           new_thread\<lparr>pc := pc_dequeued \<lparr>m_task = user_function 1, m_schedule = time_point 200\<rparr>\<rparr>)"
  using C7_worker_dequeue [where st = example_deferred
      and task = "\<lparr>m_task = user_function 1, m_schedule = time_point 200\<rparr>"
      and rest = "[\<lparr>m_task = user_function 2, m_schedule = not_a_date_time\<rparr>,
        \<lparr>m_task = user_function 3, m_schedule = time_point 50\<rparr>]"
      and now = 100 and w = new_thread and later = 101]
    C7_worker_dequeue [where st = example_deferred
      and task = "\<lparr>m_task = user_function 1, m_schedule = time_point 200\<rparr>"
      and rest = "[\<lparr>m_task = user_function 2, m_schedule = not_a_date_time\<rparr>,
        \<lparr>m_task = user_function 3, m_schedule = time_point 50\<rparr>]"
      and now = 200 and w = new_thread and later = 201]
  by (simp add: example_deferred_def)

section \<open>The loop of \<open>add_thread\<close>\<close>

declare add_threads_up_to.simps [simp del]

lemma add_thread_eq:
  "add_thread st = st\<lparr>m_threads := m_threads st @ [new_thread], m_threadCount := m_threadCount st + 1\<rparr>"
  by (simp add: add_thread_def add_thread_count_def add_thread_push_def)

lemma add_threads_up_to_eq:
  "m_threadCount st \<le> n \<Longrightarrow>
   add_threads_up_to n st =
     st\<lparr>m_threads := m_threads st @ replicate (unat n - unat (m_threadCount st)) new_thread,
        m_threadCount := n\<rparr>"
proof (induction n st rule: add_threads_up_to.induct)
  case (1 n st)
  show ?case
  proof (cases "m_threadCount st < n")
    case True
    then have le: "m_threadCount st + 1 \<le> n"
      and suc: "unat (m_threadCount st + 1) = Suc (unat (m_threadCount st))"
      and lt: "unat (m_threadCount st) < unat n"
      by unat_arith+
    then have rep: "replicate (unat n - unat (m_threadCount st)) new_thread =
        new_thread # replicate (unat n - unat (m_threadCount st + 1)) new_thread"
      by (metis Suc_diff_Suc replicate_Suc)
    have "add_threads_up_to n st = add_threads_up_to n (add_thread st)"
      using True by (subst add_threads_up_to.simps) (simp add: pool_size_def)
    also have "\<dots> = (add_thread st)\<lparr>m_threads := m_threads (add_thread st) @
         replicate (unat n - unat (m_threadCount (add_thread st))) new_thread, m_threadCount := n\<rparr>"
      using "1.IH" True le by (simp add: pool_size_def add_thread_eq)
    finally show ?thesis
      by (simp add: add_thread_eq rep)
  next
    case False
    with "1.prems" have "m_threadCount st = n"
      by simp
    then show ?thesis
      by (subst add_threads_up_to.simps) (simp add: pool_size_def)
  qed
qed

lemma add_threads_up_to_id:
  "n \<le> m_threadCount st \<Longrightarrow> add_threads_up_to n st = st"
  by (subst add_threads_up_to.simps) (simp add: pool_size_def)

section \<open>Construction\<close>

lemma compute_min_threads_eq:
  "compute_min_threads hw min_threads max_threads =
     (if spec_resolved_min hw min_threads max_threads = max_threads
      then spec_resolved_min hw min_threads max_threads
      else spec_resolved_min hw min_threads max_threads + 1)"
proof -
  have "max x 1 = (if x = 0 then 1 else x)" for x :: uint
    unfolding max_def by unat_arith
  then show ?thesis
    by (simp add: compute_min_threads_def spec_resolved_min_def spec_clamp_def Let_def)
qed

lemma add_threads_up_to_initial:
  "add_threads_up_to n
     \<lparr>m_stopPool = a1, m_minThreads = a2, m_maxThreads = a3, m_resizeUpTolerance = a4,
      m_resizeDownTolerance = a5, m_onShutdown = a6, m_activeTasks = a7, m_threadCount = 0,
      m_pendingTasks = a8, m_threads = [], resize_flag = a9, step_count = a10,
      next_pool_size = a11, monitor_at = a12, destructor_at = a13, remove_thread_t = a14\<rparr> =
     \<lparr>m_stopPool = a1, m_minThreads = a2, m_maxThreads = a3, m_resizeUpTolerance = a4,
      m_resizeDownTolerance = a5, m_onShutdown = a6, m_activeTasks = a7, m_threadCount = n,
      m_pendingTasks = a8, m_threads = replicate (unat n) new_thread, resize_flag = a9,
      step_count = a10, next_pool_size = a11, monitor_at = a12, destructor_at = a13,
      remove_thread_t = a14\<rparr>"
  by (subst add_threads_up_to_eq) simp_all

lemma impl_ctor_eq:
  "impl_ctor hw min_threads max_threads timeout_add timeout_del on_shutdown =
     (if compute_min_threads hw min_threads max_threads \<le> max_threads
      then Inr (constructed (compute_min_threads hw min_threads max_threads) max_threads
                  timeout_add timeout_del on_shutdown)
      else Inl assertion_failed)"
  unfolding impl_ctor_def Let_def
  by (simp add: add_threads_up_to_initial schedule_def invalid_system_time_def monitor_task_def
      constructed_def)

text \<open>
  C4.  For every call of the constructor whose minimum is the automatic value, or is at
  most the maximum: with the minimum resolved (the automatic value to
  \<open>clamp(hw * 2, 1, max)\<close>), the constructor returns a pool of exactly that many workers
  when it equals the maximum, and of one more when it is smaller.  All workers are new
  (none has taken a task), no task is active, and the queue holds nothing but the
  monitor.
\<close>

theorem C4_constructor_spawns:
  assumes "min_threads = - 1 \<or> min_threads \<le> max_threads"
  shows "\<exists>st. impl_ctor hw min_threads max_threads timeout_add timeout_del on_shutdown = Inr st \<and>
           m_threads st =
             replicate (if spec_resolved_min hw min_threads max_threads = max_threads
                        then unat (spec_resolved_min hw min_threads max_threads)
                        else unat (spec_resolved_min hw min_threads max_threads) + 1) new_thread \<and>
           pool_size st =
             (if spec_resolved_min hw min_threads max_threads = max_threads
              then spec_resolved_min hw min_threads max_threads
              else spec_resolved_min hw min_threads max_threads + 1) \<and>
           active_tasks st = 0 \<and>
           set (m_pendingTasks st) \<subseteq> {monitor_task}"
proof -
  define r where "r = spec_resolved_min hw min_threads max_threads"
  define m where "m = compute_min_threads hw min_threads max_threads"
  have m: "m = (if r = max_threads then r else r + 1)"
    by (simp add: m_def r_def compute_min_threads_eq)
  have r_le: "r \<le> max_threads"
    using assms by (auto simp: r_def spec_resolved_min_def spec_clamp_def)
  have m_le: "m \<le> max_threads"
    using r_le by (simp add: m inc_le)
  have "r \<noteq> max_threads \<Longrightarrow> unat (r + 1) = unat r + 1"
    using r_le by unat_arith
  then have m_unat: "unat m = (if r = max_threads then unat r else unat r + 1)"
    by (simp add: m)
  have "impl_ctor hw min_threads max_threads timeout_add timeout_del on_shutdown =
      Inr (constructed m max_threads timeout_add timeout_del on_shutdown)"
    using m_le by (simp add: impl_ctor_eq m_def)
  moreover have "m_threads (constructed m max_threads timeout_add timeout_del on_shutdown) =
      replicate (if r = max_threads then unat r else unat r + 1) new_thread"
    by (simp add: constructed_def m_unat)
  moreover have "pool_size (constructed m max_threads timeout_add timeout_del on_shutdown) =
      (if r = max_threads then r else r + 1)"
    by (simp add: constructed_def pool_size_def m)
  moreover have "active_tasks (constructed m max_threads timeout_add timeout_del on_shutdown) = 0"
    by (simp add: constructed_def active_tasks_def)
  moreover have "set (m_pendingTasks (constructed m max_threads timeout_add timeout_del on_shutdown))
      \<subseteq> {monitor_task}"
    by (auto simp: constructed_def)
  ultimately show ?thesis
    unfolding r_def by blast
qed

theorem C4_constructor_spawns_witness:
  "(2::uint) \<le> 2 \<and>
   impl_ctor 4 2 2 100 500 shutdown_option_cancel_tasks =
     Inr (constructed 2 2 100 500 shutdown_option_cancel_tasks) \<and>
   m_threads (constructed 2 2 100 500 shutdown_option_cancel_tasks) = [new_thread, new_thread] \<and>
   (2::uint) \<le> 16 \<and>
   impl_ctor 4 2 16 100 500 shutdown_option_cancel_tasks =
     Inr (constructed 3 16 100 500 shutdown_option_cancel_tasks) \<and>
   m_threads (constructed 3 16 100 500 shutdown_option_cancel_tasks) =
     [new_thread, new_thread, new_thread] \<and>
   impl_ctor 4 (- 1) 6 100 500 shutdown_option_cancel_tasks =
     Inr (constructed 6 6 100 500 shutdown_option_cancel_tasks)"
proof -
  have a: "(2::uint) = - 1 \<or> (2::uint) \<le> 2" and b: "(2::uint) = - 1 \<or> (2::uint) \<le> 16"
    and c: "(- 1::uint) = - 1 \<or> (- 1::uint) \<le> 6"
    by simp_all
  have r: "spec_resolved_min 4 2 2 = 2" "spec_resolved_min 4 2 16 = 2" "spec_resolved_min 4 (- 1) 6 = 6"
    by (simp_all add: spec_resolved_min_def spec_clamp_def)
  have n: "replicate 2 new_thread = [new_thread, new_thread]"
    "replicate 3 new_thread = [new_thread, new_thread, new_thread]"
    by (simp_all add: numeral_2_eq_2 numeral_3_eq_3)
  show ?thesis
    using C4_constructor_spawns [OF a, of 4 100 500 shutdown_option_cancel_tasks]
      C4_constructor_spawns [OF b, of 4 100 500 shutdown_option_cancel_tasks]
      C4_constructor_spawns [OF c, of 4 100 500 shutdown_option_cancel_tasks]
    by (simp add: r n impl_ctor_eq compute_min_threads_eq constructed_def)
qed

section \<open>Arithmetic of \<open>unsigned int\<close>\<close>

lemma unat_uint_less:
  fixes x :: uint
  shows "unat x < 2 ^ 32"
proof -
  have "unat x < 2 ^ LENGTH(32)"
    by (rule unsigned_less)
  then show ?thesis
    by simp
qed

lemma unat_plus_one:
  fixes x :: uint
  shows "unat x + 1 < 2 ^ 32 \<Longrightarrow> unat (x + 1) = unat x + 1"
  using unat_add_lem [of x 1] by simp

lemma unat_minus_one_nonzero:
  fixes x :: uint
  shows "x \<noteq> 0 \<Longrightarrow> unat (x - 1) = unat x - 1"
  by (simp add: unat_minus_one)

section \<open>Single precision\<close>

declare bit_length.simps [simp del]

lemma bit_length_bounds:
  "0 < n \<Longrightarrow> 2 ^ (bit_length n - 1) \<le> n \<and> n < 2 ^ bit_length n"
proof (induction n rule: bit_length.induct)
  case (1 n)
  show ?case
  proof (cases "n div 2 = 0")
    case True
    with "1.prems" have "n = 1"
      by (simp add: div_eq_0_iff) 
    then show ?thesis
      by (simp add: bit_length.simps [of "Suc 0"] bit_length.simps [of 0])
  next
    case False
    with "1.IH" "1.prems" have ih: "2 ^ (bit_length (n div 2) - 1) \<le> n div 2"
      "n div 2 < 2 ^ bit_length (n div 2)"
      by simp_all
    have pos: "0 < bit_length (n div 2)"
      using False by (subst bit_length.simps) simp
    have bl: "bit_length n = Suc (bit_length (n div 2))"
      using "1.prems" by (subst bit_length.simps) simp
    have "2 * 2 ^ (bit_length (n div 2) - 1) \<le> n"
      using ih(1) by linarith
    moreover have "2 * 2 ^ (bit_length (n div 2) - 1) = (2::nat) ^ bit_length (n div 2)"
      using pos by (cases "bit_length (n div 2)") simp_all
    moreover have "n < 2 * 2 ^ bit_length (n div 2)"
      using ih(2) by linarith
    ultimately show ?thesis
      by (simp add: bl)
  qed
qed

lemma round_to_float_exact: "k < 2 ^ 24 \<Longrightarrow> round_to_float k = k"
  by (simp add: round_to_float_def)

lemma round_to_float_lower: "7 * k \<le> 8 * round_to_float k"
proof (cases "k < 2 ^ 24")
  case True
  then show ?thesis
    by (simp add: round_to_float_exact)
next
  case False
  define sh where "sh = bit_length k - 24"
  define q where "q = k div 2 ^ sh"
  define r where "r = k mod 2 ^ sh"
  from False have kpos: "0 < k"
    by simp
  have "k < 2 ^ bit_length k"
    using bit_length_bounds [OF kpos] by simp
  with False have "(2::nat) ^ 24 < 2 ^ bit_length k"
    by linarith
  then have len: "24 < bit_length k"
    by (rule power_less_imp_less_exp [rotated]) simp
  then have "bit_length k - 1 = sh + 23"
    by (simp add: sh_def)
  then have "2 ^ (sh + 23) \<le> k"
    using bit_length_bounds [OF kpos] by simp
  then have "2 ^ 23 * 2 ^ sh \<le> k"
    by (simp add: power_add mult.commute)
  then have "2 ^ 23 \<le> q"
    unfolding q_def by (simp add: less_eq_div_iff_mult_less_eq)
  then have q7: "7 \<le> q"
    by simp
  have k: "k = q * 2 ^ sh + r"
    unfolding q_def r_def by (rule div_mult_mod_eq [symmetric])
  have r: "r < 2 ^ sh"
    by (simp add: r_def)
  have "7 * r \<le> 7 * 2 ^ sh"
    using r by simp
  also have "\<dots> \<le> q * 2 ^ sh"
    using q7 by simp
  finally have "7 * k \<le> 8 * (q * 2 ^ sh)"
    using k by linarith
  also have "\<dots> \<le> 8 * round_to_float k"
    using False by (simp add: round_to_float_def Let_def sh_def [symmetric] q_def [symmetric])
  finally show ?thesis .
qed

lemma unsigned_times_up_factor_ge:
  assumes "unsigned_times_up_factor p = Inr u"
  shows "p \<le> u"
proof -
  define v where "v = round_to_float (unat p)"
  define h where "h = round_to_float (3 * v)"
  from assms have fits: "h div 2 < 2 ^ 32" and u: "u = of_nat (h div 2)"
    by (auto simp: unsigned_times_up_factor_def Let_def v_def h_def split: if_splits)
  have "7 * unat p \<le> 8 * v" "7 * (3 * v) \<le> 8 * h"
    unfolding v_def h_def by (rule round_to_float_lower)+
  then have "unat p \<le> h div 2"
    by linarith
  moreover have "unat u = h div 2"
    using fits by (simp add: u unat_of_nat take_bit_nat_eq_self)
  ultimately show ?thesis
    by (simp add: word_le_nat_alt)
qed

lemma unsigned_times_up_factor_exact:
  assumes "3 * unat p < 2 ^ 24"
  shows "unsigned_times_up_factor p = Inr (p + p div 2)"
proof -
  have "unat p < 2 ^ 24"
    using assms by linarith
  then have v: "round_to_float (unat p) = unat p"
    by (rule round_to_float_exact)
  have h: "round_to_float (3 * unat p) = 3 * unat p"
    using assms by (rule round_to_float_exact)
  have "3 * unat p div 2 = unat p + unat p div 2"
    by linarith
  moreover have "(of_nat (unat p + unat p div 2) :: uint) = p + p div 2"
    by (simp add: word_arith_nat_div)
  moreover have "3 * unat p div 2 < 2 ^ 32"
    using assms by simp
  ultimately show ?thesis
    by (simp add: unsigned_times_up_factor_def Let_def v h)
qed

lemma unsigned_div_down_factor_exact:
  assumes "unat p < 2 ^ 24"
  shows "unsigned_div_down_factor p = p div 2"
  using assms by (simp add: unsigned_div_down_factor_def round_to_float_exact word_arith_nat_div)

lemma bit_length_numeral: "bit_length (numeral n) = Suc (bit_length (numeral n div 2))"
  by (subst bit_length.simps) simp

lemma bit_length_0: "bit_length 0 = 0"
  by (simp add: bit_length.simps [of 0])

lemma bit_length_Suc_0: "bit_length (Suc 0) = Suc 0"
  by (simp add: bit_length.simps [of "Suc 0"] bit_length_0)

lemmas bit_length_eval = bit_length_numeral bit_length_0 bit_length_Suc_0

lemma round_to_float_upper: "round_to_float k \<le> 2 * k"
proof (cases "k < 2 ^ 24")
  case True
  then show ?thesis
    by (simp add: round_to_float_exact)
next
  case False
  define sh where "sh = bit_length k - 24"
  define q where "q = k div 2 ^ sh"
  have "0 < k"
    using False by simp
  then have "k < 2 ^ bit_length k" "2 ^ (bit_length k - 1) \<le> k"
    using bit_length_bounds by simp_all
  moreover have "(2::nat) ^ sh \<le> 2 ^ (bit_length k - 1)"
    by (rule power_increasing) (simp_all add: sh_def)
  ultimately have "2 ^ sh \<le> k"
    by linarith
  then have "1 \<le> q"
    unfolding q_def by (simp add: less_eq_div_iff_mult_less_eq)
  have "q * 2 ^ sh \<le> k"
    unfolding q_def by (rule div_times_less_eq_dividend)
  have "round_to_float k \<le> (q + 1) * 2 ^ sh"
    using False by (simp add: round_to_float_def Let_def sh_def [symmetric] q_def [symmetric])
  also have "\<dots> \<le> (2 * q) * 2 ^ sh"
    using \<open>1 \<le> q\<close> by (intro mult_right_mono) simp_all
  also have "\<dots> \<le> 2 * k"
    using \<open>q * 2 ^ sh \<le> k\<close> by simp
  finally show ?thesis .
qed

lemma unsigned_div_down_factor_le: "unsigned_div_down_factor p \<le> p"
proof -
  have "round_to_float (unat p) div 2 \<le> unat p"
    using round_to_float_upper [of "unat p"] by linarith
  moreover have "unat p < 2 ^ 32"
    by (rule unat_uint_less)
  ultimately have "unat (of_nat (round_to_float (unat p) div 2) :: uint) = round_to_float (unat p) div 2"
    by (simp add: unat_of_nat take_bit_nat_eq_self)
  with \<open>round_to_float (unat p) div 2 \<le> unat p\<close> show ?thesis
    by (simp add: unsigned_div_down_factor_def word_le_nat_alt)
qed

lemma unsigned_times_up_factor_1: "unsigned_times_up_factor 1 = Inr 1"
  by (simp add: unsigned_times_up_factor_def round_to_float_def Let_def)

section \<open>Runs of the examples\<close>

lemma run_append:
  "run st (as @ bs) = (case run st as of None \<Rightarrow> None | Some st' \<Rightarrow> run st' bs)"
  by (induction as arbitrary: st) (simp_all split: option.splits)

lemma unsigned_times_up_factor_6: "unsigned_times_up_factor 6 = Inr 9"
  by (simp add: unsigned_times_up_factor_def round_to_float_def Let_def)

lemma unsigned_times_up_factor_5592409: "unsigned_times_up_factor 5592409 = Inr 8388614"
  by (simp add: unsigned_times_up_factor_def round_to_float_def Let_def bit_length_eval)

lemma replicate_6: "replicate 6 x = [x, x, x, x, x, x]"
  by (simp add: eval_nat_numeral)

lemmas example_defs =
  constructed_def replicate_6 user_task_def running_worker_def
  new_thread_def monitor_task_def idle_worker_def monitor_worker_def deferring_worker_def

lemmas step_defs =
  worker_thread_step_def worker_wait_or_dequeue_def worker_dequeue_def is_on_schedule_def
  schedule_def monitor_running_def is_running_monitor_def
  pool_monitor_begin_def pool_monitor_resize_def step_flag_def active_tasks_def pool_size_def
  MAX_STEPS_UP_def MAX_STEPS_DOWN_def Let_def
  add_thread_push_def add_thread_count_def pool_monitor_grown_def
  remove_idle_examine_def remove_idle_decrement_def remove_idle_erase_def pool_monitor_shrunk_def

lemma example_full_reachable:
  "run (constructed 6 16 0 0 shutdown_option_cancel_tasks) example_grow_trace = Some example_full"
  by (simp add: example_grow_trace_def example_full_def example_defs step_defs)

lemma example_idle_reachable:
  "run example_full example_shrink_trace = Some example_idle"
  by (simp add: example_shrink_trace_def example_full_def example_idle_def example_defs step_defs
      unsigned_times_up_factor_6)

lemma example_scan_reachable:
  "run example_idle example_scan_trace = Some example_scan"
  by (simp add: example_scan_trace_def example_idle_def example_scan_def example_defs step_defs
      unsigned_div_down_factor_def round_to_float_def)

lemma replicate_3: "replicate 3 x = [x, x, x]"
  by (simp add: numeral_3_eq_3)

lemma example_destroying_reachable:
  "run (constructed 1 1 100 500 shutdown_option_cancel_tasks) example_destroy_trace =
     Some example_destroying"
  by (simp add: example_destroy_trace_def example_destroying_def example_defs step_defs
      destructor_shutdown_def remove_thread_interrupt_def)

lemma example_window_reachable:
  "run example_full example_window_trace = Some example_window"
  by (simp add: example_window_trace_def example_full_def example_window_def example_defs step_defs
      unsigned_times_up_factor_6)

lemma example_one_reachable:
  "run (constructed 1 2 0 0 shutdown_option_cancel_tasks) example_one_trace = Some example_one"
  by (simp add: example_one_trace_def example_one_def example_defs step_defs)

lemma example_fixed_reachable:
  "run (constructed 3 3 100 500 shutdown_option_cancel_tasks) example_fixed_trace = Some example_fixed"
  by (simp add: example_fixed_trace_def example_fixed_def example_defs step_defs replicate_3)

lemma impl_ctor_examples:
  "impl_ctor 4 5 16 0 0 shutdown_option_cancel_tasks =
     Inr (constructed 6 16 0 0 shutdown_option_cancel_tasks)"
  "impl_ctor 4 1 1 100 500 shutdown_option_cancel_tasks =
     Inr (constructed 1 1 100 500 shutdown_option_cancel_tasks)"
  "impl_ctor 4 0 2 0 0 shutdown_option_cancel_tasks =
     Inr (constructed 1 2 0 0 shutdown_option_cancel_tasks)"
  "impl_ctor 4 2 3 100 500 shutdown_option_cancel_tasks =
     Inr (constructed 3 3 100 500 shutdown_option_cancel_tasks)"
  by (simp_all add: impl_ctor_eq compute_min_threads_def)

section \<open>The scan of \<open>remove_idle_threads\<close>\<close>

declare remove_idle_threads_from.simps [simp del]
declare remove_idle_actions.simps [simp del]

lemma remove_idle_scanned_zero: "remove_idle_scanned 0 ws = 0"
  by (cases ws) simp_all

lemma remove_idle_threads_from_eq:
  "it \<le> length (m_threads st) \<Longrightarrow>
   remove_idle_threads_from it count st =
     st\<lparr>m_threads := take it (m_threads st) @
           filter m_busy (take (remove_idle_scanned (unat count) (drop it (m_threads st)))
                            (drop it (m_threads st))) @
           drop (remove_idle_scanned (unat count) (drop it (m_threads st))) (drop it (m_threads st)),
        m_threadCount := m_threadCount st -
           of_nat (length (filter idle_thread
             (take (remove_idle_scanned (unat count) (drop it (m_threads st)))
                (drop it (m_threads st)))))\<rparr>"
proof (induction it count st rule: remove_idle_threads_from.induct)
  case (1 it count st)
  let ?ws = "m_threads st"
  show ?case
  proof (cases "it < length ?ws \<and> count > 0")
    case False
    with "1.prems" have "remove_idle_scanned (unat count) (drop it ?ws) = 0"
      by (cases "it < length ?ws") (auto simp: word_gt_0 remove_idle_scanned_zero)
    moreover from False have "remove_idle_threads_from it count st = st"
      by (subst remove_idle_threads_from.simps) auto
    ultimately show ?thesis
      by simp
  next
    case True
    then have it: "it < length ?ws" and pos: "count \<noteq> 0"
      by auto
    have rest: "drop it ?ws = ?ws ! it # drop (Suc it) ?ws"
      using it by (simp add: Cons_nth_drop_Suc)
    from pos have n: "unat count \<noteq> 0" and n1: "unat (count - 1) = unat count - 1"
      by (simp_all add: unat_minus_one unat_eq_zero)
    show ?thesis
    proof (cases "m_busy (?ws ! it)")
      case busy: True
      have "remove_idle_threads_from it count st = remove_idle_threads_from (it + 1) count st"
        using True busy by (subst remove_idle_threads_from.simps) simp
      also from "1.IH"(1) [OF True busy] it have "\<dots> =
        st\<lparr>m_threads := take (Suc it) ?ws @
              filter m_busy (take (remove_idle_scanned (unat count) (drop (Suc it) ?ws))
                               (drop (Suc it) ?ws)) @
              drop (remove_idle_scanned (unat count) (drop (Suc it) ?ws)) (drop (Suc it) ?ws),
           m_threadCount := m_threadCount st -
              of_nat (length (filter idle_thread
                (take (remove_idle_scanned (unat count) (drop (Suc it) ?ws))
                   (drop (Suc it) ?ws))))\<rparr>"
        by simp
      also have "\<dots> = st\<lparr>m_threads := take it ?ws @
           filter m_busy (take (remove_idle_scanned (unat count) (drop it ?ws)) (drop it ?ws)) @
           drop (remove_idle_scanned (unat count) (drop it ?ws)) (drop it ?ws),
        m_threadCount := m_threadCount st -
           of_nat (length (filter idle_thread
             (take (remove_idle_scanned (unat count) (drop it ?ws)) (drop it ?ws))))\<rparr>"
        using busy n it by (simp add: rest take_Suc_conv_app_nth idle_thread_def)
      finally show ?thesis .
    next
      case idle: False
      let ?st2 = "st\<lparr>m_threads := take it ?ws @ drop (Suc it) ?ws,
                     m_threadCount := m_threadCount st - 1\<rparr>"
      have le: "it \<le> length (m_threads ?st2)"
        using it by simp
      have tk: "take it (m_threads ?st2) = take it ?ws" "drop it (m_threads ?st2) = drop (Suc it) ?ws"
        using it by simp_all
      have "remove_idle_threads_from it count st = remove_idle_threads_from it (count - 1) ?st2"
        using True idle by (subst remove_idle_threads_from.simps) simp
      also from "1.IH"(2) [OF True idle le] have "\<dots> =
        st\<lparr>m_threads := take it ?ws @
              filter m_busy (take (remove_idle_scanned (unat count - 1) (drop (Suc it) ?ws))
                               (drop (Suc it) ?ws)) @
              drop (remove_idle_scanned (unat count - 1) (drop (Suc it) ?ws)) (drop (Suc it) ?ws),
           m_threadCount := m_threadCount st - 1 -
              of_nat (length (filter idle_thread
                (take (remove_idle_scanned (unat count - 1) (drop (Suc it) ?ws))
                   (drop (Suc it) ?ws))))\<rparr>"
        unfolding tk n1 by simp
      also have "\<dots> = st\<lparr>m_threads := take it ?ws @
           filter m_busy (take (remove_idle_scanned (unat count) (drop it ?ws)) (drop it ?ws)) @
           drop (remove_idle_scanned (unat count) (drop it ?ws)) (drop it ?ws),
        m_threadCount := m_threadCount st -
           of_nat (length (filter idle_thread
             (take (remove_idle_scanned (unat count) (drop it ?ws)) (drop it ?ws))))\<rparr>"
        using idle n by (simp add: rest idle_thread_def)
      finally show ?thesis .
    qed
  qed
qed

lemma remove_idle_scanned_spec:
  "remove_idle_scanned n ws \<le> length ws \<and>
   length (filter idle_thread (take (remove_idle_scanned n ws) ws)) \<le> n \<and>
   (remove_idle_scanned n ws < length ws \<longrightarrow>
      length (filter idle_thread (take (remove_idle_scanned n ws) ws)) = n \<and>
      (remove_idle_scanned n ws = 0 \<or> idle_thread (ws ! (remove_idle_scanned n ws - 1))))"
proof (induction ws arbitrary: n)
  case Nil
  then show ?case
    by simp
next
  case (Cons th rest)
  show ?case
  proof (cases "n = 0")
    case True
    then show ?thesis
      by simp
  next
    case False
    show ?thesis
    proof (cases "m_busy th")
      case True
      with False Cons.IH [of n] show ?thesis
        by (auto simp: idle_thread_def nth_Cons split: nat.splits)
    next
      case idle: False
      with False Cons.IH [of "n - 1"] show ?thesis
        by (auto simp: idle_thread_def nth_Cons split: nat.splits)
    qed
  qed
qed

section \<open>What no step changes\<close>

lemma worker_thread_step_config:
  "worker_thread_step now st w = Some (st', w') \<Longrightarrow>
     m_minThreads st' = m_minThreads st \<and> m_maxThreads st' = m_maxThreads st"
  by (auto simp: worker_thread_step_def worker_wait_or_dequeue_def worker_dequeue_def
      split: worker_pc.splits if_splits list.splits)

lemma add_threads_up_to_config:
  "m_minThreads (add_threads_up_to n st) = m_minThreads st \<and>
   m_maxThreads (add_threads_up_to n st) = m_maxThreads st"
  by (cases "m_threadCount st \<le> n") (simp_all add: add_threads_up_to_eq add_threads_up_to_id)

lemma pool_monitor_begin_config:
  "pool_monitor_begin st = Inr st' \<Longrightarrow>
     m_minThreads st' = m_minThreads st \<and> m_maxThreads st' = m_maxThreads st"
  by (auto simp: pool_monitor_begin_def pool_monitor_resize_def Let_def
      split: if_splits sum.splits)

lemma step_config:
  "step st a = Some st' \<Longrightarrow>
     m_minThreads st' = m_minThreads st \<and> m_maxThreads st' = m_maxThreads st"
proof (cases a)
  case (Schedule n abs_time)
  then show "step st a = Some st' \<Longrightarrow> ?thesis"
    by (auto simp: schedule_def split: if_splits)
next
  case (Worker i now)
  then show "step st a = Some st' \<Longrightarrow> ?thesis"
    by (auto split: if_splits option.splits dest: worker_thread_step_config)
next
  case (Added_worker now)
  then show "step st a = Some st' \<Longrightarrow> ?thesis"
    by (auto split: monitor_pc.splits option.splits dest: worker_thread_step_config)
next
  case (Removed_worker now)
  then show "step st a = Some st' \<Longrightarrow> ?thesis"
    by (auto split: if_splits option.splits dest: worker_thread_step_config)
next
  case Monitor_begin
  then show "step st a = Some st' \<Longrightarrow> ?thesis"
    by (auto split: if_splits sum.splits dest: pool_monitor_begin_config)
next
  case Monitor_grow
  then show "step st a = Some st' \<Longrightarrow> ?thesis"
    by (auto simp: pool_monitor_grown_def split: if_splits)
next
  case Monitor_push
  then show "step st a = Some st' \<Longrightarrow> ?thesis"
    by (auto simp: add_thread_push_def split: monitor_pc.splits if_splits)
next
  case Monitor_count
  then show "step st a = Some st' \<Longrightarrow> ?thesis"
    by (auto simp: add_thread_count_def split: if_splits)
next
  case Monitor_examine
  then show "step st a = Some st' \<Longrightarrow> ?thesis"
    by (auto simp: remove_idle_examine_def pool_monitor_shrunk_def split: monitor_pc.splits if_splits)
next
  case Monitor_decrement
  then show "step st a = Some st' \<Longrightarrow> ?thesis"
    by (auto simp: remove_idle_decrement_def split: monitor_pc.splits if_splits)
next
  case Monitor_join
  then show "step st a = Some st' \<Longrightarrow> ?thesis"
    by (auto simp: remove_idle_erase_def split: monitor_pc.splits if_splits)
next
  case Destructor_stop
  then show "step st a = Some st' \<Longrightarrow> ?thesis"
    by (auto split: if_splits)
next
  case Destructor_shutdown
  then show "step st a = Some st' \<Longrightarrow> ?thesis"
    by (auto simp: destructor_shutdown_def split: if_splits)
next
  case Destructor_remove_thread
  then show "step st a = Some st' \<Longrightarrow> ?thesis"
    by (auto simp: remove_thread_interrupt_def split: if_splits)
next
  case Destructor_join
  then show "step st a = Some st' \<Longrightarrow> ?thesis"
    by (auto simp: remove_thread_join_def split: if_splits option.splits)
qed

lemma run_config:
  "run st as = Some st' \<Longrightarrow>
     m_minThreads st' = m_minThreads st \<and> m_maxThreads st' = m_maxThreads st"
proof (induction as arbitrary: st)
  case Nil
  then show ?case
    by simp
next
  case (Cons a as)
  then obtain st1 where "step st a = Some st1" "run st1 as = Some st'"
    by (auto split: option.splits)
  with Cons.IH [of st1] step_config [of st a st1] show ?case
    by simp
qed

lemma worker_thread_step_frame:
  assumes "worker_thread_step now st w = Some (st', w')"
  shows "m_stopPool st' = m_stopPool st \<and> m_minThreads st' = m_minThreads st \<and>
         m_maxThreads st' = m_maxThreads st \<and> m_threadCount st' = m_threadCount st \<and>
         m_threads st' = m_threads st \<and> next_pool_size st' = next_pool_size st \<and>
         monitor_at st' = monitor_at st \<and> destructor_at st' = destructor_at st \<and>
         remove_thread_t st' = remove_thread_t st \<and> resize_flag st' = resize_flag st \<and>
         m_onShutdown st' = m_onShutdown st"
  using assms
  by (auto simp: worker_thread_step_def worker_wait_or_dequeue_def worker_dequeue_def
      split: worker_pc.splits if_splits list.splits)

lemma step_stopPool:
  "step st a = Some st' \<Longrightarrow> m_stopPool st \<Longrightarrow> m_stopPool st'"
proof (cases a)
  case (Worker i now)
  then show "step st a = Some st' \<Longrightarrow> m_stopPool st \<Longrightarrow> ?thesis"
    by (auto split: if_splits option.splits dest: worker_thread_step_frame)
next
  case (Added_worker now)
  then show "step st a = Some st' \<Longrightarrow> m_stopPool st \<Longrightarrow> ?thesis"
    by (auto split: monitor_pc.splits option.splits dest: worker_thread_step_frame)
next
  case (Removed_worker now)
  then show "step st a = Some st' \<Longrightarrow> m_stopPool st \<Longrightarrow> ?thesis"
    by (auto split: if_splits option.splits dest: worker_thread_step_frame)
qed (auto simp: schedule_def add_thread_push_def add_thread_count_def pool_monitor_grown_def
    remove_idle_examine_def remove_idle_decrement_def remove_idle_erase_def pool_monitor_shrunk_def
    destructor_shutdown_def remove_thread_interrupt_def remove_thread_join_def
    split: if_splits option.splits monitor_pc.splits)

lemma run_stopPool:
  "run st as = Some st' \<Longrightarrow> m_stopPool st \<Longrightarrow> m_stopPool st'"
proof (induction as arbitrary: st)
  case Nil
  then show ?case
    by simp
next
  case (Cons a as)
  then obtain st1 where "step st a = Some st1" "run st1 as = Some st'"
    by (auto split: option.splits)
  with Cons.IH [of st1] step_stopPool [of st a st1] Cons.prems show ?case
    by simp
qed

section \<open>The invariant of the running pool\<close>

lemma length_filter_update:
  "i < length xs \<Longrightarrow>
     length (filter P (xs[i := y])) + (if P (xs ! i) then 1 else 0) =
       length (filter P xs) + (if P y then 1 else 0)"
proof (induction xs arbitrary: i)
  case Nil
  then show ?case
    by simp
next
  case (Cons x xs)
  then show ?case
    by (cases i) auto
qed

lemma length_filter_erase:
  assumes "i < length xs"
  shows "length (filter P (take i xs @ drop (Suc i) xs)) + (if P (xs ! i) then 1 else 0) =
           length (filter P xs)"
proof -
  from assms have "xs = take i xs @ xs ! i # drop (Suc i) xs"
    by (rule id_take_nth_drop)
  then have "filter P xs = filter P (take i xs) @ filter P (xs ! i # drop (Suc i) xs)"
    by (metis filter_append)
  then show ?thesis
    by simp
qed

lemma nth_erase:
  assumes "k < length xs - 1" and "i < length xs"
  shows "(take i xs @ drop (Suc i) xs) ! k = (if k < i then xs ! k else xs ! Suc k)"
  using assms by (auto simp: nth_append min_def)

lemma scan_inv_cong:
  "length (m_threads st') = length (m_threads st) \<Longrightarrow> m_minThreads st' = m_minThreads st \<Longrightarrow>
   next_pool_size st' = next_pool_size st \<Longrightarrow> m_threadCount st' = m_threadCount st \<Longrightarrow>
   scan_inv p st' = scan_inv p st"
  by (cases p) simp_all

lemma scan_inv_frame [simp]:
  "scan_inv p (st\<lparr>step_count := c\<rparr>) = scan_inv p st"
  "scan_inv p (st\<lparr>resize_flag := f\<rparr>) = scan_inv p st"
  "scan_inv p (st\<lparr>m_pendingTasks := q\<rparr>) = scan_inv p st"
  "scan_inv p (st\<lparr>m_activeTasks := n\<rparr>) = scan_inv p st"
  "scan_inv p (st\<lparr>monitor_at := x\<rparr>) = scan_inv p st"
  by (rule scan_inv_cong; simp)+

lemma worker_thread_step_active:
  assumes "worker_thread_step now st w = Some (st', w')"
  shows "(is_running w \<longrightarrow> \<not> is_running w' \<and> m_activeTasks st' = m_activeTasks st - 1) \<and>
         (\<not> is_running w \<longrightarrow> is_running w' \<longrightarrow> m_activeTasks st' = m_activeTasks st + 1) \<and>
         (\<not> is_running w \<longrightarrow> \<not> is_running w' \<longrightarrow> m_activeTasks st' = m_activeTasks st)"
  using assms
  by (auto simp: worker_thread_step_def worker_wait_or_dequeue_def worker_dequeue_def is_running_def
      split: worker_pc.splits if_splits list.splits)

lemma worker_thread_step_ok:
  assumes "worker_thread_step now st w = Some (st', w')"
    and "\<not> m_stopPool st"
    and "worker_ok w"
  shows "worker_ok w'"
  using assms
  by (auto simp: worker_thread_step_def worker_wait_or_dequeue_def worker_dequeue_def worker_ok_def
      split: worker_pc.splits if_splits list.splits)

lemma worker_thread_step_leaving:
  assumes "worker_thread_step now st w = Some (st', w')"
    and "worker_leaving w"
  shows "worker_leaving w' \<and> pc w' = pc_exited \<and> \<not> is_running w \<and> \<not> is_running w' \<and>
         m_activeTasks st' = m_activeTasks st"
  using assms
  by (auto simp: worker_thread_step_def worker_leaving_def is_running_def
      split: worker_pc.splits if_splits list.splits)

lemma worker_ok_running_busy: "worker_ok w \<Longrightarrow> is_running w \<Longrightarrow> m_busy w"
  by (auto simp: worker_ok_def is_running_def split: worker_pc.splits)

lemma worker_leaving_not_running: "worker_leaving w \<Longrightarrow> \<not> is_running w"
  by (auto simp: worker_leaving_def is_running_def split: worker_pc.splits)

text \<open>
  A step of one of the started threads keeps \<open>m_activeTasks\<close> the number of running
  threads.
\<close>

lemma worker_thread_step_count:
  assumes ws: "worker_thread_step now st (xs ! j) = Some (st1, w')"
    and j: "j < length xs"
    and a: "unat (m_activeTasks st) = length (filter is_running xs)"
    and bound: "length xs < 2 ^ 32"
  shows "unat (m_activeTasks st1) = length (filter is_running (xs[j := w']))"
proof -
  let ?w = "xs ! j"
  let ?ws' = "xs[j := w']"
  note active = worker_thread_step_active [OF ws]
  have count: "length (filter is_running ?ws') + (if is_running ?w then 1 else 0) =
      length (filter is_running xs) + (if is_running w' then 1 else 0)"
    using j by (rule length_filter_update)
  have "length (filter is_running ?ws') \<le> length ?ws'"
    by (rule length_filter_le)
  with bound have bound': "length (filter is_running ?ws') < 2 ^ 32"
    by simp
  show ?thesis
  proof (cases "is_running ?w")
    case True
    with active have "\<not> is_running w'" and eq: "m_activeTasks st1 = m_activeTasks st - 1"
      by simp_all
    with count True a have "unat (m_activeTasks st) = Suc (length (filter is_running ?ws'))"
      by simp
    moreover from this have "m_activeTasks st \<noteq> 0"
      by auto
    then have "unat (m_activeTasks st - 1) = unat (m_activeTasks st) - 1"
      by (rule unat_minus_one_nonzero)
    ultimately show ?thesis
      by (simp add: eq)
  next
    case False
    show ?thesis
    proof (cases "is_running w'")
      case True
      with False active have eq: "m_activeTasks st1 = m_activeTasks st + 1"
        by simp
      from count False True a
      have n: "length (filter is_running ?ws') = Suc (unat (m_activeTasks st))"
        by simp
      with bound' have "unat (m_activeTasks st) + 1 < 2 ^ 32"
        by simp
      then have "unat (m_activeTasks st + 1) = unat (m_activeTasks st) + 1"
        by (rule unat_plus_one)
      with n show ?thesis
        by (simp add: eq)
    next
      case neither: False
      with False active count a show ?thesis
        by simp
    qed
  qed
qed

lemma is_running_monitor_running: "is_running_monitor w \<Longrightarrow> is_running w"
  by (simp add: is_running_monitor_def is_running_def split: worker_pc.splits)

lemma list_ex_update:
  assumes "list_ex P xs" and "\<not> P (xs ! i)"
  shows "list_ex P (xs[i := y])"
proof -
  from assms(1) obtain j where j: "j < length xs" "P (xs ! j)"
    by (auto simp: list_ex_iff in_set_conv_nth)
  with assms(2) have "j \<noteq> i"
    by auto
  with j have "j < length (xs[i := y])" "P (xs[i := y] ! j)"
    by simp_all
  then show ?thesis
    unfolding list_ex_iff by (metis nth_mem)
qed

lemma list_ex_erase:
  assumes "list_ex P xs" and "\<not> P (xs ! i)" and "i < length xs"
  shows "list_ex P (take i xs @ drop (Suc i) xs)"
proof -
  from assms(1) have "list_ex P (take i xs @ xs ! i # drop (Suc i) xs)"
    by (simp only: id_take_nth_drop [OF assms(3), symmetric])
  with assms(2) show ?thesis
    by simp
qed

lemma worker_thread_step_monitor_blocked:
  assumes "worker_thread_step now st w = Some (st', w')" and "\<not> m_stopPool st"
  shows "\<not> is_running_monitor w"
  using assms
  by (auto simp: worker_thread_step_def is_running_monitor_def split: worker_pc.splits if_splits)

text \<open>The per-thread clause of the invariant, for a list of threads.\<close>

lemma pool_inv_started:
  assumes "pool_inv st" and "k < length (started_threads st)"
  shows "if leaving_at (monitor_at st) = Some k then worker_leaving (started_threads st ! k)
         else worker_ok (started_threads st ! k)"
  using assms by (simp add: pool_inv_def)

lemma pool_inv_worker:
  assumes inv: "pool_inv st"
    and i: "i < length (m_threads st)"
    and ws: "worker_thread_step now st (m_threads st ! i) = Some (st1, w')"
    and run: "\<not> m_stopPool st"
  shows "pool_inv (st1\<lparr>m_threads := (m_threads st1)[i := w']\<rparr>)"
proof -
  let ?st' = "st1\<lparr>m_threads := (m_threads st1)[i := w']\<rparr>"
  let ?xs = "started_threads st"
  note frame = worker_thread_step_frame [OF ws]
  have i': "i < length ?xs" and nth: "?xs ! i = m_threads st ! i"
    using i by (simp_all add: started_threads_def nth_append)
  have started: "started_threads ?st' = ?xs[i := w']"
    using frame i by (simp add: started_threads_def list_update_append1)
  from inv have a: "unat (m_activeTasks st) = length (filter is_running ?xs)"
    and bound: "length ?xs < 2 ^ 32"
    by (simp_all add: pool_inv_def)
  from ws have ws': "worker_thread_step now st (?xs ! i) = Some (st1, w')"
    by (simp add: nth)
  have active: "unat (m_activeTasks ?st') = length (filter is_running (started_threads ?st'))"
    using worker_thread_step_count [OF ws' i' a bound] by (simp add: started)
  have mon_at: "monitor_at ?st' = monitor_at st"
    using frame by simp
  have workers: "if leaving_at (monitor_at ?st') = Some k
      then worker_leaving (started_threads ?st' ! k) else worker_ok (started_threads ?st' ! k)"
    if k: "k < length (started_threads ?st')" for k
    unfolding started mon_at
  proof (cases "k = i")
    case True
    show "if leaving_at (monitor_at st) = Some k
      then worker_leaving (?xs[i := w'] ! k) else worker_ok (?xs[i := w'] ! k)"
    proof (cases "leaving_at (monitor_at st) = Some i")
      case leaving: True
      with pool_inv_started [OF inv i'] have "worker_leaving (?xs ! i)"
        by simp
      with ws' have "worker_leaving w'"
        by (simp add: worker_thread_step_leaving)
      with leaving True i' show ?thesis
        by simp
    next
      case False
      with pool_inv_started [OF inv i'] have "worker_ok (?xs ! i)"
        by simp
      with ws' run have "worker_ok w'"
        by (rule worker_thread_step_ok)
      with False True i' show ?thesis
        by simp
    qed
  next
    case False
    from k have "k < length ?xs"
      by (simp add: started)
    from pool_inv_started [OF inv this] False
    show "if leaving_at (monitor_at st) = Some k
      then worker_leaving (?xs[i := w'] ! k) else worker_ok (?xs[i := w'] ! k)"
      by simp
  qed
  have "scan_inv (monitor_at st) ?st' = scan_inv (monitor_at st) st"
    using frame by (intro scan_inv_cong) simp_all
  with frame have scan: "scan_inv (monitor_at ?st') ?st' = scan_inv (monitor_at st) st"
    by simp
  have mon: "monitor_running ?st'" if "monitor_at st \<noteq> mon_loop_head"
  proof -
    from inv that have "monitor_running st" "remove_thread_t st = None"
      by (simp_all add: pool_inv_def)
    then have "list_ex is_running_monitor (m_threads st)"
      by (simp add: monitor_running_def)
    moreover from ws run have "\<not> is_running_monitor (m_threads st ! i)"
      by (rule worker_thread_step_monitor_blocked)
    ultimately have "list_ex is_running_monitor ((m_threads st)[i := w'])"
      by (rule list_ex_update)
    with frame show ?thesis
      by (simp add: monitor_running_def)
  qed
  from inv have rest: "length (m_threads st) = unat (m_threadCount st) + uncounted (monitor_at st)"
    "in_add_thread (monitor_at st) \<longrightarrow> m_threadCount st < next_pool_size st"
    "monitor_at st \<noteq> mon_loop_head \<longrightarrow> next_pool_size st \<le> m_maxThreads st"
    "m_minThreads st \<le> m_threadCount st" "m_threadCount st \<le> m_maxThreads st"
    "scan_inv (monitor_at st) st"
    "destructor_at st = dtor_not_called" "remove_thread_t st = None"
    by (simp_all add: pool_inv_def)
  show ?thesis
    unfolding pool_inv_def
  proof (intro conjI allI impI)
    show "unat (m_activeTasks ?st') = length (filter is_running (started_threads ?st'))"
      by (rule active)
    show "length (started_threads ?st') < 2 ^ 32"
      unfolding started using bound by simp
    show "scan_inv (monitor_at ?st') ?st'"
      using rest(6) scan by simp
    show "monitor_running ?st'" if "monitor_at ?st' \<noteq> mon_loop_head"
      using that mon unfolding mon_at by simp
    show "if leaving_at (monitor_at ?st') = Some k
      then worker_leaving (started_threads ?st' ! k) else worker_ok (started_threads ?st' ! k)"
      if "k < length (started_threads ?st')" for k
      using that by (rule workers)
    show "length (m_threads ?st') = unat (m_threadCount ?st') + uncounted (monitor_at ?st')"
      using rest(1) frame by simp
    show "m_threadCount ?st' < next_pool_size ?st'" if "in_add_thread (monitor_at ?st')"
      using that rest(2) frame by simp
    show "next_pool_size ?st' \<le> m_maxThreads ?st'" if "monitor_at ?st' \<noteq> mon_loop_head"
      using that rest(3) frame by simp
    show "m_minThreads ?st' \<le> m_threadCount ?st'"
      using rest(4) frame by simp
    show "m_threadCount ?st' \<le> m_maxThreads ?st'"
      using rest(5) frame by simp
    show "destructor_at ?st' = dtor_not_called"
      using rest(7) frame by simp
    show "remove_thread_t ?st' = None"
      using rest(8) frame by simp
  qed
qed

lemma pool_inv_frame [simp]:
  "pool_inv (st\<lparr>step_count := c\<rparr>) = pool_inv st"
  "pool_inv (st\<lparr>resize_flag := f\<rparr>) = pool_inv st"
  "pool_inv (st\<lparr>m_pendingTasks := q\<rparr>) = pool_inv st"
  by (simp_all add: pool_inv_def started_threads_def monitor_running_def)

lemma pool_inv_added_worker:
  assumes inv: "pool_inv st"
    and at: "monitor_at st = mon_add_thread_made t"
    and ws: "worker_thread_step now st t = Some (st1, t')"
    and run: "\<not> m_stopPool st"
  shows "pool_inv (st1\<lparr>monitor_at := mon_add_thread_made t'\<rparr>)"
proof -
  let ?st' = "st1\<lparr>monitor_at := mon_add_thread_made t'\<rparr>"
  let ?xs = "started_threads st"
  let ?j = "length (m_threads st)"
  note frame = worker_thread_step_frame [OF ws]
  have xs: "?xs = m_threads st @ [t]"
    using at by (simp add: started_threads_def)
  have j: "?j < length ?xs" and nth: "?xs ! ?j = t"
    by (simp_all add: xs)
  have started: "started_threads ?st' = ?xs[?j := t']"
    using frame at by (simp add: started_threads_def)
  from inv have a: "unat (m_activeTasks st) = length (filter is_running ?xs)"
    and bound: "length ?xs < 2 ^ 32"
    by (simp_all add: pool_inv_def)
  from ws have ws': "worker_thread_step now st (?xs ! ?j) = Some (st1, t')"
    by (simp add: nth)
  have active: "unat (m_activeTasks ?st') = length (filter is_running (started_threads ?st'))"
    using worker_thread_step_count [OF ws' j a bound] by (simp add: started)
  have leaving: "leaving_at (monitor_at st) = None" "leaving_at (monitor_at ?st') = None"
    using at by simp_all
  have workers: "worker_ok (started_threads ?st' ! k)" if k: "k < length (started_threads ?st')" for k
    unfolding started
  proof (cases "k = ?j")
    case True
    from pool_inv_started [OF inv j] leaving have "worker_ok (?xs ! ?j)"
      by simp
    with ws' run have "worker_ok t'"
      by (rule worker_thread_step_ok)
    with True j show "worker_ok (?xs[?j := t'] ! k)"
      by simp
  next
    case False
    from k have "k < length ?xs"
      by (simp add: started)
    from pool_inv_started [OF inv this] leaving False show "worker_ok (?xs[?j := t'] ! k)"
      by simp
  qed
  from inv at have rest: "length (m_threads st) = unat (m_threadCount st)"
    "m_threadCount st < next_pool_size st"
    "next_pool_size st \<le> m_maxThreads st"
    "m_minThreads st \<le> m_threadCount st" "m_threadCount st \<le> m_maxThreads st"
    "monitor_running st"
    "destructor_at st = dtor_not_called" "remove_thread_t st = None"
    by (simp_all add: pool_inv_def)
  show ?thesis
    unfolding pool_inv_def
  proof (intro conjI allI impI)
    show "unat (m_activeTasks ?st') = length (filter is_running (started_threads ?st'))"
      by (rule active)
    show "length (started_threads ?st') < 2 ^ 32"
      unfolding started using bound by simp
    show "scan_inv (monitor_at ?st') ?st'"
      by simp
    show "monitor_running ?st'"
      using rest(6) frame by (simp add: monitor_running_def)
    show "if leaving_at (monitor_at ?st') = Some k
      then worker_leaving (started_threads ?st' ! k) else worker_ok (started_threads ?st' ! k)"
      if "k < length (started_threads ?st')" for k
      using workers [OF that] leaving by simp
    show "length (m_threads ?st') = unat (m_threadCount ?st') + uncounted (monitor_at ?st')"
      using rest(1) frame by simp
    show "m_threadCount ?st' < next_pool_size ?st'"
      using rest(2) frame by simp
    show "next_pool_size ?st' \<le> m_maxThreads ?st'"
      using rest(3) frame by simp
    show "m_minThreads ?st' \<le> m_threadCount ?st'"
      using rest(4) frame by simp
    show "m_threadCount ?st' \<le> m_maxThreads ?st'"
      using rest(5) frame by simp
    show "destructor_at ?st' = dtor_not_called"
      using rest(7) frame by simp
    show "remove_thread_t ?st' = None"
      using rest(8) frame by simp
  qed
qed

lemma pool_inv_enter_grow_loop:
  assumes "pool_inv st" and "monitor_at st = mon_loop_head" and "monitor_running st"
  shows "pool_inv (st\<lparr>step_count := c, next_pool_size := min (m_maxThreads st) u,
                      monitor_at := mon_grow_loop\<rparr>)"
  using assms by (simp add: pool_inv_def started_threads_def monitor_running_def)

lemma pool_inv_enter_remove_idle:
  assumes inv: "pool_inv st" and head: "monitor_at st = mon_loop_head"
    and mon: "monitor_running st"
    and new: "new = max (m_minThreads st) (unsigned_div_down_factor (pool_size st))"
  shows "pool_inv (st\<lparr>step_count := c, next_pool_size := new,
                      monitor_at := mon_remove_idle_loop 0 (pool_size st - new)\<rparr>)"
proof -
  from inv have min: "m_minThreads st \<le> m_threadCount st" and max: "m_threadCount st \<le> m_maxThreads st"
    by (simp_all add: pool_inv_def)
  have le: "new \<le> m_threadCount st"
    using min unsigned_div_down_factor_le [of "pool_size st"] by (simp add: new pool_size_def)
  then have "unat (m_threadCount st - new) = unat (m_threadCount st) - unat new"
    by (simp add: unat_sub)
  moreover from le have "unat new \<le> unat (m_threadCount st)"
    by (simp add: word_le_nat_alt)
  ultimately have count: "unat (m_threadCount st) = unat new + unat (m_threadCount st - new)"
    by simp
  have "m_minThreads st \<le> new"
    by (simp add: new)
  moreover from le max have "new \<le> m_maxThreads st"
    by simp
  ultimately show ?thesis
    using inv head mon count
    by (simp add: pool_inv_def started_threads_def monitor_running_def pool_size_def)
qed

lemma pool_inv_monitor_begin:
  assumes inv: "pool_inv st"
    and head: "monitor_at st = mon_loop_head"
    and mon: "monitor_running st"
    and step: "pool_monitor_begin st = Inr st'"
  shows "pool_inv st'"
proof (cases "step_flag st \<noteq> resize_flag st")
  case True
  with step have "st' = st\<lparr>step_count := 0, resize_flag := step_flag st\<rparr>"
    by (simp add: pool_monitor_begin_def)
  with inv show ?thesis
    by simp
next
  case same: False
  let ?st1 = "st\<lparr>step_count := step_count st + 1\<rparr>"
  from same step have resize: "pool_monitor_resize ?st1 = Inr st'"
    by (simp add: pool_monitor_begin_def)
  show ?thesis
  proof (cases "resize_flag st = flag_resize_up \<and> step_count st + 1 = MAX_STEPS_UP st")
    case True
    with resize obtain u where
      "st' = st\<lparr>step_count := step_count st + 1,
               next_pool_size := min (m_maxThreads st) u, monitor_at := mon_grow_loop\<rparr>"
      by (auto simp: pool_monitor_resize_def MAX_STEPS_UP_def split: sum.splits)
    with pool_inv_enter_grow_loop [OF inv head mon] show ?thesis
      by simp
  next
    case not_up: False
    show ?thesis
    proof (cases "resize_flag st = flag_resize_down \<and> step_count st + 1 = MAX_STEPS_DOWN st")
      case True
      with resize not_up have "st' = st\<lparr>step_count := step_count st + 1,
          next_pool_size := max (m_minThreads st) (unsigned_div_down_factor (pool_size st)),
          monitor_at := mon_remove_idle_loop 0
            (pool_size st - max (m_minThreads st) (unsigned_div_down_factor (pool_size st)))\<rparr>"
        by (auto simp: pool_monitor_resize_def Let_def MAX_STEPS_UP_def MAX_STEPS_DOWN_def pool_size_def
            split: if_splits)
      with pool_inv_enter_remove_idle [OF inv head mon refl] show ?thesis
        by simp
    next
      case False
      with resize not_up have "st' = ?st1"
        by (auto simp: pool_monitor_resize_def MAX_STEPS_UP_def MAX_STEPS_DOWN_def split: if_splits)
      with inv show ?thesis
        by simp
    qed
  qed
qed

lemma pool_inv_monitor_grow:
  assumes inv: "pool_inv st"
    and loop: "monitor_at st = mon_grow_loop"
  shows "pool_inv (if pool_size st < next_pool_size st
                   then st\<lparr>monitor_at := mon_add_thread_made new_thread\<rparr>
                   else pool_monitor_grown st)"
proof (cases "pool_size st < next_pool_size st")
  case False
  with inv loop show ?thesis
    by (simp add: pool_inv_def pool_monitor_grown_def started_threads_def monitor_running_def)
next
  case True
  let ?st' = "st\<lparr>monitor_at := mon_add_thread_made new_thread\<rparr>"
  have xs: "started_threads st = m_threads st" "started_threads ?st' = m_threads st @ [new_thread]"
    using loop by (simp_all add: started_threads_def)
  from True have "unat (m_threadCount st) < unat (next_pool_size st)"
    by (simp add: pool_size_def word_less_nat_alt)
  with unat_uint_less [of "next_pool_size st"] have "unat (m_threadCount st) + 1 < 2 ^ 32"
    by simp
  moreover from inv loop have len: "length (m_threads st) = unat (m_threadCount st)"
    by (simp add: pool_inv_def)
  ultimately have bound: "length (started_threads ?st') < 2 ^ 32"
    by (simp add: xs)
  have workers: "worker_ok (started_threads ?st' ! k)" if "k < length (started_threads ?st')" for k
  proof (cases "k < length (m_threads st)")
    case True
    with pool_inv_started [OF inv, of k] loop show ?thesis
      by (simp add: xs nth_append)
  next
    case False
    with that have "k = length (m_threads st)"
      by (simp add: xs)
    then have "started_threads ?st' ! k = new_thread"
      by (simp add: xs)
    then show ?thesis
      by (simp add: worker_ok_def new_thread_def)
  qed
  have "\<not> is_running new_thread"
    by (simp add: is_running_def new_thread_def)
  with inv have active: "unat (m_activeTasks ?st') = length (filter is_running (started_threads ?st'))"
    by (simp add: pool_inv_def xs)
  from inv loop True have rest: "next_pool_size st \<le> m_maxThreads st"
    "m_minThreads st \<le> m_threadCount st" "m_threadCount st \<le> m_maxThreads st"
    "monitor_running st" "destructor_at st = dtor_not_called" "remove_thread_t st = None"
    "m_threadCount st < next_pool_size st"
    by (simp_all add: pool_inv_def pool_size_def)
  have "pool_inv ?st'"
    unfolding pool_inv_def
  proof (intro conjI allI impI)
    show "unat (m_activeTasks ?st') = length (filter is_running (started_threads ?st'))"
      by (rule active)
    show "length (started_threads ?st') < 2 ^ 32"
      by (rule bound)
    show "if leaving_at (monitor_at ?st') = Some k
      then worker_leaving (started_threads ?st' ! k) else worker_ok (started_threads ?st' ! k)"
      if "k < length (started_threads ?st')" for k
      using workers [OF that] by simp
    show "monitor_running ?st'"
      using rest(4) by (simp add: monitor_running_def)
  qed (use rest len in simp_all)
  with True show ?thesis
    by simp
qed

lemma pool_inv_monitor_push:
  assumes inv: "pool_inv st"
    and at: "monitor_at st = mon_add_thread_made t"
  shows "pool_inv ((add_thread_push t st)\<lparr>monitor_at := mon_add_thread_pushed\<rparr>)"
  using assms
  by (auto simp: pool_inv_def add_thread_push_def started_threads_def monitor_running_def)

lemma pool_inv_monitor_count:
  assumes inv: "pool_inv st"
    and loop: "monitor_at st = mon_add_thread_pushed"
  shows "pool_inv ((add_thread_count st)\<lparr>monitor_at := mon_grow_loop\<rparr>)"
proof -
  from inv loop have less: "m_threadCount st < next_pool_size st"
    and le: "next_pool_size st \<le> m_maxThreads st"
    and min: "m_minThreads st \<le> m_threadCount st"
    by (simp_all add: pool_inv_def)
  from less have "unat (m_threadCount st) + 1 < 2 ^ 32"
    using unat_uint_less [of "next_pool_size st"] by (simp add: word_less_nat_alt)
  then have suc: "unat (m_threadCount st + 1) = unat (m_threadCount st) + 1"
    by (rule unat_plus_one)
  with less le min have "m_threadCount st + 1 \<le> m_maxThreads st" "m_minThreads st \<le> m_threadCount st + 1"
    by (simp_all add: word_le_nat_alt word_less_nat_alt)
  with inv loop suc show ?thesis
    by (auto simp: pool_inv_def add_thread_count_def started_threads_def monitor_running_def)
qed

lemma worker_ok_idle_not_monitor: "worker_ok w \<Longrightarrow> \<not> m_busy w \<Longrightarrow> \<not> is_running_monitor w"
  by (simp add: worker_ok_def is_running_monitor_def)

lemma worker_leaving_not_monitor: "worker_leaving w \<Longrightarrow> \<not> is_running_monitor w"
  by (auto simp: worker_leaving_def is_running_monitor_def)

lemma pool_inv_monitor_examine:
  assumes inv: "pool_inv st"
    and at: "monitor_at st = mon_remove_idle_loop it count"
  shows "pool_inv (if it < length (m_threads st) \<and> count > 0
                   then remove_idle_examine it count st
                   else pool_monitor_shrunk st)"
proof -
  have xs: "started_threads st = m_threads st"
    using at by (simp add: started_threads_def)
  from inv at have rest: "unat (m_activeTasks st) = length (filter is_running (m_threads st))"
    "length (m_threads st) < 2 ^ 32"
    "length (m_threads st) = unat (m_threadCount st)"
    "next_pool_size st \<le> m_maxThreads st"
    "m_minThreads st \<le> m_threadCount st" "m_threadCount st \<le> m_maxThreads st"
    "monitor_running st" "destructor_at st = dtor_not_called" "remove_thread_t st = None"
    "it \<le> length (m_threads st)" "m_minThreads st \<le> next_pool_size st"
    "unat (m_threadCount st) = unat (next_pool_size st) + unat count"
    by (simp_all add: pool_inv_def xs)
  have ok: "worker_ok (m_threads st ! k)" if "k < length (m_threads st)" for k
    using pool_inv_started [OF inv, of k] that at by (simp add: xs)
  show ?thesis
  proof (cases "it < length (m_threads st) \<and> count > 0")
    case False
    have "pool_inv (pool_monitor_shrunk st)"
      unfolding pool_inv_def
    proof (intro conjI allI impI)
      show "if leaving_at (monitor_at (pool_monitor_shrunk st)) = Some k
        then worker_leaving (started_threads (pool_monitor_shrunk st) ! k)
        else worker_ok (started_threads (pool_monitor_shrunk st) ! k)"
        if "k < length (started_threads (pool_monitor_shrunk st))" for k
        using that ok [of k] by (simp add: pool_monitor_shrunk_def started_threads_def)
    qed (use rest in \<open>simp_all add: pool_monitor_shrunk_def started_threads_def monitor_running_def\<close>)
    with False show ?thesis
      by auto
  next
    case True
    then have it: "it < length (m_threads st)" and pos: "0 < count"
      by simp_all
    show ?thesis
    proof (cases "m_busy (m_threads st ! it)")
      case busy: True
      let ?st' = "st\<lparr>monitor_at := mon_remove_idle_loop (it + 1) count\<rparr>"
      have "pool_inv ?st'"
        unfolding pool_inv_def
      proof (intro conjI allI impI)
        show "if leaving_at (monitor_at ?st') = Some k
          then worker_leaving (started_threads ?st' ! k)
          else worker_ok (started_threads ?st' ! k)"
          if "k < length (started_threads ?st')" for k
          using that ok [of k] by (simp add: started_threads_def)
      qed (use rest it in \<open>simp_all add: started_threads_def monitor_running_def\<close>)
      with True busy show ?thesis
        by (simp add: remove_idle_examine_def)
    next
      case idle: False
      let ?w = "m_threads st ! it"
      let ?w' = "?w\<lparr>interrupt_requested := True\<rparr>"
      let ?st' = "st\<lparr>m_threads := (m_threads st)[it := ?w'],
                     monitor_at := mon_remove_idle_interrupted it count\<rparr>"
      have xs': "started_threads ?st' = (m_threads st)[it := ?w']"
        by (simp add: started_threads_def)
      from ok [OF it] idle have leaving: "worker_leaving ?w'"
        by (simp add: worker_ok_def worker_leaving_def)
      have "is_running ?w' = is_running ?w"
        by (simp add: is_running_def)
      with length_filter_update [OF it, of is_running ?w']
      have "length (filter is_running ((m_threads st)[it := ?w'])) =
          length (filter is_running (m_threads st))"
        by simp
      with rest(1) have active: "unat (m_activeTasks ?st') =
          length (filter is_running (started_threads ?st'))"
        by (simp add: xs')
      from rest(7,9) have "list_ex is_running_monitor (m_threads st)"
        by (simp add: monitor_running_def)
      moreover from ok [OF it] idle have "\<not> is_running_monitor ?w"
        by (rule worker_ok_idle_not_monitor)
      ultimately have "list_ex is_running_monitor ((m_threads st)[it := ?w'])"
        by (rule list_ex_update)
      then have mon: "monitor_running ?st'"
        by (simp add: monitor_running_def)
      have "pool_inv ?st'"
        unfolding pool_inv_def
      proof (intro conjI allI impI)
        show "unat (m_activeTasks ?st') = length (filter is_running (started_threads ?st'))"
          by (rule active)
        show "monitor_running ?st'"
          by (rule mon)
        show "if leaving_at (monitor_at ?st') = Some k
          then worker_leaving (started_threads ?st' ! k)
          else worker_ok (started_threads ?st' ! k)"
          if "k < length (started_threads ?st')" for k
        proof (cases "k = it")
          case True
          with leaving it show ?thesis
            by (simp add: xs')
        next
          case False
          with that ok [of k] show ?thesis
            by (simp add: xs')
        qed
      qed (use rest it pos in \<open>simp_all add: xs'\<close>)
      with True idle show ?thesis
        by (simp add: remove_idle_examine_def)
    qed
  qed
qed

lemma pool_inv_monitor_decrement:
  assumes inv: "pool_inv st"
    and at: "monitor_at st = mon_remove_idle_interrupted it count"
  shows "pool_inv (remove_idle_decrement it count st)"
proof -
  let ?st' = "remove_idle_decrement it count st"
  have xs: "started_threads st = m_threads st" "started_threads ?st' = m_threads st"
    using at by (simp_all add: started_threads_def remove_idle_decrement_def)
  from inv at have rest: "unat (m_activeTasks st) = length (filter is_running (m_threads st))"
    "length (m_threads st) < 2 ^ 32"
    "length (m_threads st) = unat (m_threadCount st)"
    "next_pool_size st \<le> m_maxThreads st"
    "m_minThreads st \<le> m_threadCount st" "m_threadCount st \<le> m_maxThreads st"
    "monitor_running st" "destructor_at st = dtor_not_called" "remove_thread_t st = None"
    "it < length (m_threads st)" "m_minThreads st \<le> next_pool_size st"
    "unat (m_threadCount st) = unat (next_pool_size st) + unat count" "0 < count"
    by (simp_all add: pool_inv_def xs)
  from rest(13) have c: "count \<noteq> 0"
    by auto
  then have c1: "unat (count - 1) = unat count - 1" and cpos: "0 < unat count"
    by (simp_all add: unat_minus_one_nonzero unat_gt_0)
  with rest(12) have "m_threadCount st \<noteq> 0"
    by auto
  then have tc1: "unat (m_threadCount st - 1) = unat (m_threadCount st) - 1"
    by (rule unat_minus_one_nonzero)
  from rest(12) cpos have tcpos: "0 < unat (m_threadCount st)"
    by simp
  have count: "unat (m_threadCount st - 1) = unat (next_pool_size st) + unat (count - 1)"
    using rest(12) cpos by (simp add: tc1 c1)
  have len: "length (m_threads st) = unat (m_threadCount st - 1) + 1"
    using rest(3) tcpos by (simp add: tc1)
  from count rest(11) have min: "m_minThreads st \<le> m_threadCount st - 1"
    by (simp add: word_le_nat_alt)
  from rest(6) tcpos have max: "m_threadCount st - 1 \<le> m_maxThreads st"
    by (simp add: word_le_nat_alt tc1)
  show ?thesis
    unfolding pool_inv_def
  proof (intro conjI allI impI)
    show "if leaving_at (monitor_at ?st') = Some k
      then worker_leaving (started_threads ?st' ! k)
      else worker_ok (started_threads ?st' ! k)"
      if "k < length (started_threads ?st')" for k
      using pool_inv_started [OF inv, of k] that at
      by (auto simp: started_threads_def remove_idle_decrement_def split: if_splits)
    show "length (m_threads ?st') = unat (m_threadCount ?st') + uncounted (monitor_at ?st')"
      using len by (simp add: remove_idle_decrement_def)
    show "scan_inv (monitor_at ?st') ?st'"
      using rest(10,11) count by (simp add: remove_idle_decrement_def)
    show "m_minThreads ?st' \<le> m_threadCount ?st'"
      using min by (simp add: remove_idle_decrement_def)
    show "m_threadCount ?st' \<le> m_maxThreads ?st'"
      using max by (simp add: remove_idle_decrement_def)
    show "unat (m_activeTasks ?st') = length (filter is_running (started_threads ?st'))"
      using rest(1) by (simp add: xs) (simp add: remove_idle_decrement_def)
    show "length (started_threads ?st') < 2 ^ 32"
      using rest(2) by (simp add: xs)
  qed (use rest in \<open>simp_all add: remove_idle_decrement_def monitor_running_def\<close>)
qed

lemma pool_inv_monitor_join:
  assumes inv: "pool_inv st"
    and at: "monitor_at st = mon_remove_idle_join it count"
    and step: "remove_idle_erase it count st = Some st'"
  shows "pool_inv st'"
proof -
  let ?xs = "m_threads st"
  let ?ys = "take it ?xs @ drop (Suc it) ?xs"
  from step have it: "it < length ?xs"
    and st': "st' = st\<lparr>m_threads := ?ys, monitor_at := mon_remove_idle_loop it count\<rparr>"
    by (auto simp: remove_idle_erase_def split: if_splits)
  have xs: "started_threads st = ?xs" "started_threads st' = ?ys"
    using at by (simp_all add: started_threads_def st')
  from inv at have rest: "unat (m_activeTasks st) = length (filter is_running ?xs)"
    "length ?xs < 2 ^ 32"
    "length ?xs = unat (m_threadCount st) + 1"
    "next_pool_size st \<le> m_maxThreads st"
    "m_minThreads st \<le> m_threadCount st" "m_threadCount st \<le> m_maxThreads st"
    "monitor_running st" "destructor_at st = dtor_not_called" "remove_thread_t st = None"
    "m_minThreads st \<le> next_pool_size st"
    "unat (m_threadCount st) = unat (next_pool_size st) + unat count"
    by (simp_all add: pool_inv_def xs)
  from pool_inv_started [OF inv, of it] it at have leaving: "worker_leaving (?xs ! it)"
    by (simp add: xs)
  have ok: "worker_ok (?xs ! k)" if "k < length ?xs" "k \<noteq> it" for k
    using pool_inv_started [OF inv, of k] that at by (simp add: xs)
  have len: "length ?ys = length ?xs - 1"
    using it by simp
  from leaving have "\<not> is_running (?xs ! it)"
    by (rule worker_leaving_not_running)
  with length_filter_erase [OF it, of is_running]
  have "length (filter is_running ?ys) = length (filter is_running ?xs)"
    by simp
  with rest(1) have active: "unat (m_activeTasks st') = length (filter is_running (started_threads st'))"
    by (simp add: xs) (simp add: st')
  from rest(7,9) have "list_ex is_running_monitor ?xs"
    by (simp add: monitor_running_def)
  moreover from leaving have "\<not> is_running_monitor (?xs ! it)"
    by (rule worker_leaving_not_monitor)
  ultimately have "list_ex is_running_monitor ?ys"
    using it by (rule list_ex_erase)
  then have mon: "monitor_running st'"
    by (simp add: monitor_running_def st')
  show ?thesis
    unfolding pool_inv_def
  proof (intro conjI allI impI)
    show "unat (m_activeTasks st') = length (filter is_running (started_threads st'))"
      by (rule active)
    show "monitor_running st'"
      by (rule mon)
    show "length (started_threads st') < 2 ^ 32"
      using rest(2) len by (simp add: xs)
    show "length (m_threads st') = unat (m_threadCount st') + uncounted (monitor_at st')"
      using rest(3) it by (simp add: st')
    show "scan_inv (monitor_at st') st'"
      using rest(10,11) it by (simp add: st')
    show "if leaving_at (monitor_at st') = Some k
      then worker_leaving (started_threads st' ! k)
      else worker_ok (started_threads st' ! k)"
      if k: "k < length (started_threads st')" for k
    proof -
      from k it have k': "k < length ?xs - 1"
        by (simp add: xs)
      have "?ys ! k = (if k < it then ?xs ! k else ?xs ! Suc k)"
        using k' it by (rule nth_erase)
      moreover from k' have "worker_ok (?xs ! k)" if "k < it"
        using that by (intro ok) simp_all
      moreover from k' have "worker_ok (?xs ! Suc k)" if "\<not> k < it"
        using that by (intro ok) simp_all
      ultimately have "worker_ok (?ys ! k)"
        by simp
      then show ?thesis
        by (simp add: xs) (simp add: st')
    qed
  qed (use rest in \<open>simp_all add: st'\<close>)
qed

lemma step_pool_inv:
  assumes "step st a = Some st'" and "pool_inv st" and "\<not> m_stopPool st'"
  shows "pool_inv st'"
proof (cases a)
  case (Schedule n abs_time)
  with assms show ?thesis
    by (auto simp: schedule_def split: if_splits)
next
  case (Worker i now)
  with assms(1) obtain st1 w' where i: "i < length (m_threads st)"
    and ws: "worker_thread_step now st (m_threads st ! i) = Some (st1, w')"
    and st': "st' = st1\<lparr>m_threads := (m_threads st1)[i := w']\<rparr>"
    by (auto split: if_splits option.splits)
  from worker_thread_step_frame [OF ws] st' assms(3) have "\<not> m_stopPool st"
    by simp
  from pool_inv_worker [OF assms(2) i ws this] st' show ?thesis
    by simp
next
  case (Added_worker now)
  with assms(1) obtain t st1 t' where at: "monitor_at st = mon_add_thread_made t"
    and ws: "worker_thread_step now st t = Some (st1, t')"
    and st': "st' = st1\<lparr>monitor_at := mon_add_thread_made t'\<rparr>"
    by (auto split: monitor_pc.splits option.splits)
  from worker_thread_step_frame [OF ws] st' assms(3) have "\<not> m_stopPool st"
    by simp
  from pool_inv_added_worker [OF assms(2) at ws this] st' show ?thesis
    by simp
next
  case (Removed_worker now)
  with assms show ?thesis
    by (auto simp: pool_inv_def)
next
  case Monitor_begin
  with assms show ?thesis
    by (auto split: if_splits sum.splits intro: pool_inv_monitor_begin)
next
  case Monitor_grow
  with assms(1) have "monitor_at st = mon_grow_loop"
    and "st' = (if pool_size st < next_pool_size st
                then st\<lparr>monitor_at := mon_add_thread_made new_thread\<rparr>
                else pool_monitor_grown st)"
    by (auto split: if_splits)
  with pool_inv_monitor_grow [OF assms(2)] show ?thesis
    by simp
next
  case Monitor_push
  with assms(1) obtain t where "monitor_at st = mon_add_thread_made t"
    and "st' = (add_thread_push t st)\<lparr>monitor_at := mon_add_thread_pushed\<rparr>"
    by (auto split: monitor_pc.splits if_splits)
  with pool_inv_monitor_push [OF assms(2)] show ?thesis
    by simp
next
  case Monitor_count
  with assms(1) have "monitor_at st = mon_add_thread_pushed"
    and "st' = (add_thread_count st)\<lparr>monitor_at := mon_grow_loop\<rparr>"
    by (auto split: if_splits)
  with pool_inv_monitor_count [OF assms(2)] show ?thesis
    by simp
next
  case Monitor_examine
  with assms(1) obtain it count where "monitor_at st = mon_remove_idle_loop it count"
    and "st' = (if it < length (m_threads st) \<and> count > 0
                then remove_idle_examine it count st else pool_monitor_shrunk st)"
    by (auto split: monitor_pc.splits if_splits)
  with pool_inv_monitor_examine [OF assms(2)] show ?thesis
    by simp
next
  case Monitor_decrement
  with assms(1) obtain it count where "monitor_at st = mon_remove_idle_interrupted it count"
    and "st' = remove_idle_decrement it count st"
    by (auto split: monitor_pc.splits if_splits)
  with pool_inv_monitor_decrement [OF assms(2)] show ?thesis
    by simp
next
  case Monitor_join
  with assms(1) obtain it count where "monitor_at st = mon_remove_idle_join it count"
    and "remove_idle_erase it count st = Some st'"
    by (auto split: monitor_pc.splits if_splits)
  with pool_inv_monitor_join [OF assms(2)] show ?thesis
    by simp
next
  case Destructor_stop
  with assms show ?thesis
    by (auto split: if_splits)
next
  case Destructor_shutdown
  with assms show ?thesis
    by (auto simp: pool_inv_def split: if_splits)
next
  case Destructor_remove_thread
  with assms show ?thesis
    by (auto simp: pool_inv_def split: if_splits)
next
  case Destructor_join
  with assms show ?thesis
    by (auto simp: pool_inv_def split: if_splits)
qed

lemma run_pool_inv:
  "run st as = Some st' \<Longrightarrow> pool_inv st \<Longrightarrow> \<not> m_stopPool st' \<Longrightarrow> pool_inv st'"
proof (induction as arbitrary: st)
  case Nil
  then show ?case
    by simp
next
  case (Cons a as)
  then obtain st1 where s: "step st a = Some st1" and r: "run st1 as = Some st'"
    by (auto split: option.splits)
  from run_stopPool [OF r] Cons.prems(3) have "\<not> m_stopPool st1"
    by auto
  with s Cons.prems(2) have "pool_inv st1"
    by (rule step_pool_inv)
  with Cons.IH [OF r] Cons.prems(3) show ?case
    by simp
qed

lemma pool_inv_constructed:
  "m \<le> max_threads \<Longrightarrow> pool_inv (constructed m max_threads timeout_add timeout_del on_shutdown)"
  using unat_uint_less [of m]
  by (simp add: pool_inv_def constructed_def started_threads_def new_thread_def is_running_def
      worker_ok_def)

lemma impl_ctor_pool_inv:
  assumes "impl_ctor hw min_threads max_threads timeout_add timeout_del on_shutdown = Inr st0"
  shows "pool_inv st0"
  using assms by (auto simp: impl_ctor_eq split: if_splits intro: pool_inv_constructed)

lemma reachable_pool_inv:
  assumes "impl_ctor hw min_threads max_threads timeout_add timeout_del on_shutdown = Inr st0"
    and "run st0 as = Some st"
    and "\<not> m_stopPool st"
  shows "pool_inv st"
  using run_pool_inv [OF assms(2) impl_ctor_pool_inv [OF assms(1)] assms(3)] .

section \<open>Growing and shrinking, step by step\<close>

lemma pool_monitor_begin_grow:
  assumes "step_flag st = flag_resize_up"
    and "resize_flag st = flag_resize_up"
    and "step_count st + 1 = MAX_STEPS_UP st"
    and "unsigned_times_up_factor (pool_size st) = Inr u"
  shows "pool_monitor_begin st =
           Inr (st\<lparr>step_count := MAX_STEPS_UP st, next_pool_size := min (m_maxThreads st) u,
                   monitor_at := mon_grow_loop\<rparr>)"
  using assms
  by (simp add: pool_monitor_begin_def pool_monitor_resize_def MAX_STEPS_UP_def pool_size_def)

lemma pool_monitor_iteration_grow:
  assumes "step_flag st = flag_resize_up"
    and "resize_flag st = flag_resize_up"
    and "step_count st + 1 = MAX_STEPS_UP st"
    and "pool_size st \<le> m_maxThreads st"
    and "unsigned_times_up_factor (pool_size st) = Inr u"
  shows "pool_monitor_iteration st =
           Inr (st\<lparr>step_count := 0, resize_flag := flag_no_resize,
                   next_pool_size := min (m_maxThreads st) u,
                   monitor_at := mon_loop_head,
                   m_threads := m_threads st @
                     replicate (unat (min (m_maxThreads st) u) - unat (pool_size st)) new_thread,
                   m_threadCount := min (m_maxThreads st) u\<rparr>)"
proof -
  let ?n = "min (m_maxThreads st) u"
  let ?st1 = "st\<lparr>step_count := MAX_STEPS_UP st, next_pool_size := ?n, monitor_at := mon_grow_loop\<rparr>"
  have "pool_size st \<le> u"
    using assms(5) by (rule unsigned_times_up_factor_ge)
  with assms(4) have le: "m_threadCount ?st1 \<le> ?n"
    by (simp add: pool_size_def)
  have start: "pool_monitor_begin st = Inr ?st1"
    using assms(1-3,5) by (rule pool_monitor_begin_grow)
  have "add_threads_up_to ?n ?st1 =
      ?st1\<lparr>m_threads := m_threads ?st1 @ replicate (unat ?n - unat (m_threadCount ?st1)) new_thread,
            m_threadCount := ?n\<rparr>"
    using le by (rule add_threads_up_to_eq)
  then show ?thesis
    by (simp add: pool_monitor_iteration_def start pool_monitor_grown_def pool_size_def)
qed

lemma unsigned_times_up_factor_floor:
  assumes "unsigned_times_up_factor p = Inr u" and "3 * unat p < 2 ^ 24"
  shows "unat u = 3 * unat p div 2"
proof -
  from assms have "u = p + p div 2"
    by (simp add: unsigned_times_up_factor_exact)
  moreover have "unat (p + p div 2) = unat p + unat p div 2"
    using assms(2) by (simp add: unat_word_ariths unat_div)
  ultimately show ?thesis
    by simp
qed

text \<open>
  An iteration of the monitor as \<open>pool_monitor_iteration\<close> computes it is what the steps
  of the monitor give when no other thread moves in between.
\<close>

lemma run_add_thread:
  assumes "monitor_running st" and "monitor_at st = mon_grow_loop"
    and "pool_size st < next_pool_size st"
  shows "run st (Monitor_grow # Monitor_push # Monitor_count # as) = run (add_thread st) as"
proof -
  from assms(2) have "st\<lparr>monitor_at := mon_grow_loop\<rparr> = st"
    by (cases st) simp
  then have "(add_thread_count ((add_thread_push new_thread
      (st\<lparr>monitor_at := mon_add_thread_made new_thread\<rparr>))\<lparr>monitor_at := mon_add_thread_pushed\<rparr>))
      \<lparr>monitor_at := mon_grow_loop\<rparr> = add_thread st"
    by (cases st) (simp add: add_thread_def add_thread_count_def add_thread_push_def)
  with assms show ?thesis
    by (auto simp: monitor_running_def add_thread_push_def)
qed

lemma run_grow_loop:
  assumes "monitor_running st"
    and "monitor_at st = mon_grow_loop"
    and "m_threadCount st \<le> next_pool_size st"
    and "k = unat (next_pool_size st) - unat (m_threadCount st)"
  shows "run st (grow_actions k) =
           Some (pool_monitor_grown (add_threads_up_to (next_pool_size st) st))"
  using assms
proof (induction k arbitrary: st)
  case 0
  then have "m_threadCount st = next_pool_size st"
    by (simp add: word_le_nat_alt word_eq_iff_unsigned [where ?'a = nat])
  with 0 show ?case
    by (simp add: add_threads_up_to_id pool_size_def)
next
  case (Suc k)
  then have less: "m_threadCount st < next_pool_size st"
    by (simp add: word_less_nat_alt)
  then have suc: "unat (m_threadCount st + 1) = unat (m_threadCount st) + 1"
    using unat_uint_less [of "next_pool_size st"]
    by (intro unat_plus_one) (simp add: word_less_nat_alt)
  let ?st2 = "add_thread st"
  from less have two: "run st (Monitor_grow # Monitor_push # Monitor_count # as) = run ?st2 as" for as
    using Suc.prems(1,2) by (intro run_add_thread) (simp_all add: pool_size_def)
  have nxt: "next_pool_size ?st2 = next_pool_size st"
    by (simp add: add_thread_def add_thread_count_def add_thread_push_def)
  have "monitor_running ?st2" "monitor_at ?st2 = mon_grow_loop"
    using Suc.prems(1,2)
    by (auto simp: add_thread_def add_thread_count_def add_thread_push_def monitor_running_def)
  moreover have "m_threadCount ?st2 \<le> next_pool_size ?st2"
    using less suc
    by (simp add: add_thread_def add_thread_count_def add_thread_push_def word_le_nat_alt
        word_less_nat_alt)
  moreover have "k = unat (next_pool_size ?st2) - unat (m_threadCount ?st2)"
    using Suc.prems(4) suc
    by (simp add: add_thread_def add_thread_count_def add_thread_push_def)
  ultimately have "run ?st2 (grow_actions k) =
      Some (pool_monitor_grown (add_threads_up_to (next_pool_size ?st2) ?st2))"
    by (rule Suc.IH)
  moreover have "add_threads_up_to (next_pool_size st) st =
      add_threads_up_to (next_pool_size st) ?st2"
    using less by (subst add_threads_up_to.simps) (simp add: pool_size_def)
  moreover have "run st (grow_actions (Suc k)) = run ?st2 (grow_actions k)"
    by (simp only: grow_actions.simps two)
  ultimately show ?case
    using nxt by simp
qed

lemma remove_idle_threads_from_monitor_at:
  "it \<le> length (m_threads st) \<Longrightarrow>
   remove_idle_threads_from it count (st\<lparr>monitor_at := x\<rparr>) =
     (remove_idle_threads_from it count st)\<lparr>monitor_at := x\<rparr>"
  by (simp add: remove_idle_threads_from_eq)

lemma pool_monitor_shrunk_monitor_at [simp]:
  "pool_monitor_shrunk (st\<lparr>monitor_at := x\<rparr>) = pool_monitor_shrunk st"
  by (simp add: pool_monitor_shrunk_def)

lemma run_remove_idle:
  assumes "list_ex is_running_monitor (m_threads st)"
    and "\<forall>w \<in> set (m_threads st). \<not> m_busy w \<longrightarrow> pc w = pc_wait"
    and "monitor_at st = mon_remove_idle_loop it count"
    and "n = length (m_threads st) - it"
  shows "run st (remove_idle_actions it count (m_threads st)) =
           Some (pool_monitor_shrunk (remove_idle_threads_from it count st))"
  using assms
proof (induction n arbitrary: st it count)
  case 0
  then have no: "\<not> it < length (m_threads st)"
    by simp
  then have "remove_idle_actions it count (m_threads st) = [Monitor_examine]"
    by (subst remove_idle_actions.simps) simp
  moreover from no have "remove_idle_threads_from it count st = st"
    by (subst remove_idle_threads_from.simps) simp
  moreover from "0.prems"(1) have "monitor_running st"
    by (simp add: monitor_running_def)
  ultimately show ?case
    using "0.prems"(3) no by simp
next
  case (Suc n)
  let ?ws = "m_threads st"
  from Suc.prems(1) have mon: "monitor_running st"
    by (simp add: monitor_running_def)
  from Suc.prems(4) have it: "it < length ?ws"
    by simp
  show ?case
  proof (cases "count > 0")
    case False
    then have "remove_idle_actions it count ?ws = [Monitor_examine]"
      by (subst remove_idle_actions.simps) simp
    moreover from False have "remove_idle_threads_from it count st = st"
      by (subst remove_idle_threads_from.simps) simp
    ultimately show ?thesis
      using Suc.prems(3) mon False by simp
  next
    case pos: True
    show ?thesis
    proof (cases "m_busy (?ws ! it)")
      case busy: True
      let ?s1 = "st\<lparr>monitor_at := mon_remove_idle_loop (it + 1) count\<rparr>"
      have acts: "remove_idle_actions it count ?ws =
          Monitor_examine # remove_idle_actions (it + 1) count ?ws"
        using it pos busy by (subst remove_idle_actions.simps) simp
      have fn: "remove_idle_threads_from it count st = remove_idle_threads_from (it + 1) count st"
        using it pos busy by (subst remove_idle_threads_from.simps) simp
      have first: "step st Monitor_examine = Some ?s1"
        using Suc.prems(3) mon it pos busy by (simp add: remove_idle_examine_def)
      have "run ?s1 (remove_idle_actions (it + 1) count (m_threads ?s1)) =
          Some (pool_monitor_shrunk (remove_idle_threads_from (it + 1) count ?s1))"
        using Suc.prems it by (intro Suc.IH) simp_all
      moreover have "remove_idle_threads_from (it + 1) count ?s1 =
          (remove_idle_threads_from (it + 1) count st)\<lparr>monitor_at := mon_remove_idle_loop (it + 1) count\<rparr>"
        using it by (intro remove_idle_threads_from_monitor_at) simp
      ultimately have "run ?s1 (remove_idle_actions (it + 1) count ?ws) =
          Some (pool_monitor_shrunk (remove_idle_threads_from it count st))"
        by (simp add: fn)
      then show ?thesis
        by (simp only: acts run.simps first option.case)
    next
      case idle: False
      let ?w = "?ws ! it"
      let ?w1 = "?w\<lparr>interrupt_requested := True\<rparr>"
      let ?w2 = "?w1\<lparr>pc := pc_exited\<rparr>"
      let ?ys = "take it ?ws @ drop (Suc it) ?ws"
      let ?s1 = "st\<lparr>m_threads := ?ws[it := ?w1], monitor_at := mon_remove_idle_interrupted it count\<rparr>"
      let ?s2 = "?s1\<lparr>m_threadCount := m_threadCount st - 1,
                      monitor_at := mon_remove_idle_join it (count - 1)\<rparr>"
      let ?s3 = "?s2\<lparr>m_threads := ?ws[it := ?w2]\<rparr>"
      let ?s4 = "st\<lparr>m_threads := ?ys, m_threadCount := m_threadCount st - 1,
                     monitor_at := mon_remove_idle_loop it (count - 1)\<rparr>"
      let ?st2 = "st\<lparr>m_threads := ?ys, m_threadCount := m_threadCount st - 1\<rparr>"
      from it have mem: "?w \<in> set ?ws"
        by simp
      with Suc.prems(2) idle have wait: "pc ?w = pc_wait"
        by simp
      then have notmon: "\<not> is_running_monitor ?w"
        by (simp add: is_running_monitor_def)
      have acts: "remove_idle_actions it count ?ws =
          Monitor_examine # Monitor_decrement # Worker it 0 # Monitor_join #
            remove_idle_actions it (count - 1) ?ys"
        using it pos idle by (subst remove_idle_actions.simps) simp
      have fn: "remove_idle_threads_from it count st = remove_idle_threads_from it (count - 1) ?st2"
        using it pos idle by (subst remove_idle_threads_from.simps) simp
      have s1: "step st Monitor_examine = Some ?s1"
        using Suc.prems(3) mon it pos idle by (simp add: remove_idle_examine_def)
      have ex1: "list_ex is_running_monitor (?ws[it := ?w1])"
        using Suc.prems(1) notmon by (rule list_ex_update)
      then have s2: "step ?s1 Monitor_decrement = Some ?s2"
        by (simp add: monitor_running_def remove_idle_decrement_def)
      have s3: "step ?s2 (Worker it 0) = Some ?s3"
        using it wait by (simp add: worker_thread_step_def)
      have ex3: "list_ex is_running_monitor (?ws[it := ?w2])"
        using Suc.prems(1) notmon by (rule list_ex_update)
      then have s4: "step ?s3 Monitor_join = Some ?s4"
        using it by (simp add: monitor_running_def remove_idle_erase_def)
      have ex4: "list_ex is_running_monitor (m_threads ?s4)"
        using list_ex_erase [OF Suc.prems(1) notmon it] by simp
      have ok4: "\<forall>w \<in> set (m_threads ?s4). \<not> m_busy w \<longrightarrow> pc w = pc_wait"
        using Suc.prems(2) by (auto dest: in_set_takeD in_set_dropD)
      have n4: "n = length (m_threads ?s4) - it"
        using Suc.prems(4) it by simp
      have run4: "run ?s4 (remove_idle_actions it (count - 1) (m_threads ?s4)) =
          Some (pool_monitor_shrunk (remove_idle_threads_from it (count - 1) ?s4))"
        using ex4 ok4 _ n4 by (rule Suc.IH) simp
      have "?s4 = ?st2\<lparr>monitor_at := mon_remove_idle_loop it (count - 1)\<rparr>"
        by simp
      moreover have "it \<le> length (m_threads ?st2)"
        using it by simp
      ultimately have "remove_idle_threads_from it (count - 1) ?s4 =
          (remove_idle_threads_from it (count - 1) ?st2)\<lparr>monitor_at := mon_remove_idle_loop it (count - 1)\<rparr>"
        by (simp only: remove_idle_threads_from_monitor_at)
      moreover note run4
      ultimately have "run ?s4 (remove_idle_actions it (count - 1) ?ys) =
          Some (pool_monitor_shrunk (remove_idle_threads_from it count st))"
        by (simp add: fn)
      then show ?thesis
        by (simp only: acts run.simps s1 s2 s3 s4 option.case)
    qed
  qed
qed

lemma pool_monitor_begin_inner_loop:
  assumes "pool_monitor_begin st = Inr st1"
    and "monitor_at st = mon_loop_head"
  shows "st1 = st\<lparr>step_count := step_count st1, resize_flag := resize_flag st1\<rparr> \<or>
         (\<exists>u. unsigned_times_up_factor (pool_size st) = Inr u \<and>
              st1 = st\<lparr>step_count := step_count st + 1,
                     next_pool_size := min (m_maxThreads st) u, monitor_at := mon_grow_loop\<rparr>) \<or>
         st1 = st\<lparr>step_count := step_count st + 1,
                next_pool_size := max (m_minThreads st) (unsigned_div_down_factor (pool_size st)),
                monitor_at := mon_remove_idle_loop 0
                  (pool_size st - max (m_minThreads st) (unsigned_div_down_factor (pool_size st)))\<rparr>"
  using assms
  by (auto simp: pool_monitor_begin_def pool_monitor_resize_def Let_def pool_size_def
      split: if_splits sum.splits)

lemma pool_inv_idle_waiting:
  assumes "pool_inv st" and "leaving_at (monitor_at st) = None"
  shows "\<forall>w \<in> set (m_threads st). \<not> m_busy w \<longrightarrow> pc w = pc_wait"
proof
  fix w assume "w \<in> set (m_threads st)"
  then obtain k where k: "k < length (m_threads st)" "m_threads st ! k = w"
    by (auto simp: in_set_conv_nth)
  then have "k < length (started_threads st)" "started_threads st ! k = w"
    by (simp_all add: started_threads_def nth_append)
  with pool_inv_started [OF assms(1), of k] assms(2) show "\<not> m_busy w \<longrightarrow> pc w = pc_wait"
    by (simp add: worker_ok_def)
qed

lemma run_pool_monitor_iteration:
  assumes "pool_inv st"
    and "monitor_running st"
    and "monitor_at st = mon_loop_head"
    and "\<not> m_stopPool st"
    and "pool_monitor_iteration st = Inr st'"
  shows "run st [Monitor_begin] = Some st' \<or>
         (\<exists>k. run st (Monitor_begin # grow_actions k) = Some st') \<or>
         (\<exists>count. run st (Monitor_begin # remove_idle_actions 0 count (m_threads st)) = Some st')"
proof -
  from assms(5) obtain st1 where b: "pool_monitor_begin st = Inr st1"
    by (auto simp: pool_monitor_iteration_def split: sum.splits)
  with assms(2-4) have first: "step st Monitor_begin = Some st1"
    by simp
  from assms(1) have le: "pool_size st \<le> m_maxThreads st" and none: "remove_thread_t st = None"
    by (simp_all add: pool_inv_def pool_size_def)
  from pool_monitor_begin_inner_loop [OF b assms(3)] show ?thesis
  proof (elim disjE exE conjE)
    assume "st1 = st\<lparr>step_count := step_count st1, resize_flag := resize_flag st1\<rparr>"
    then have "monitor_at st1 =
        monitor_at (st\<lparr>step_count := step_count st1, resize_flag := resize_flag st1\<rparr>)"
      by (rule arg_cong)
    then have "monitor_at st1 = mon_loop_head"
      using assms(3) by simp
    with b assms(5) have "st' = st1"
      by (simp add: pool_monitor_iteration_def)
    with first show ?thesis
      by simp
  next
    fix u
    assume u: "unsigned_times_up_factor (pool_size st) = Inr u"
      and st1: "st1 = st\<lparr>step_count := step_count st + 1,
          next_pool_size := min (m_maxThreads st) u, monitor_at := mon_grow_loop\<rparr>"
    with b assms(5) have st': "st' = pool_monitor_grown (add_threads_up_to (next_pool_size st1) st1)"
      by (simp add: pool_monitor_iteration_def)
    from u have "pool_size st \<le> u"
      by (rule unsigned_times_up_factor_ge)
    with le have "m_threadCount st1 \<le> next_pool_size st1"
      by (simp add: st1 pool_size_def)
    moreover from assms(2) have "monitor_running st1"
      by (simp add: st1 monitor_running_def)
    moreover have "monitor_at st1 = mon_grow_loop"
      by (simp add: st1)
    ultimately have "run st1 (grow_actions (unat (next_pool_size st1) - unat (m_threadCount st1))) =
        Some st'"
      unfolding st' by (intro run_grow_loop) simp_all
    with first show ?thesis
      by auto
  next
    let ?count = "pool_size st - max (m_minThreads st) (unsigned_div_down_factor (pool_size st))"
    assume st1: "st1 = st\<lparr>step_count := step_count st + 1,
        next_pool_size := max (m_minThreads st) (unsigned_div_down_factor (pool_size st)),
        monitor_at := mon_remove_idle_loop 0 ?count\<rparr>"
    with b assms(5) have st': "st' = pool_monitor_shrunk (remove_idle_threads_from 0 ?count st1)"
      by (simp add: pool_monitor_iteration_def)
    from assms(2) none have "list_ex is_running_monitor (m_threads st1)"
      by (simp add: st1 monitor_running_def)
    moreover from pool_inv_idle_waiting [OF assms(1)] assms(3)
    have "\<forall>w \<in> set (m_threads st1). \<not> m_busy w \<longrightarrow> pc w = pc_wait"
      by (simp add: st1)
    moreover have "monitor_at st1 = mon_remove_idle_loop 0 ?count"
      by (simp add: st1)
    ultimately have "run st1 (remove_idle_actions 0 ?count (m_threads st1)) = Some st'"
      unfolding st' by (intro run_remove_idle) simp_all
    moreover have "m_threads st1 = m_threads st"
      by (simp add: st1)
    ultimately show ?thesis
      using first by auto
  qed
qed

lemma step_monitor_running:
  assumes inv: "pool_inv st"
    and mon: "monitor_running st"
    and step: "step st a = Some st'"
    and run: "\<not> m_stopPool st'"
  shows "monitor_running st'"
proof (cases "monitor_at st' = mon_loop_head")
  case False
  from step inv run have "pool_inv st'"
    by (rule step_pool_inv)
  with False show ?thesis
    by (simp add: pool_inv_def)
next
  case True
  from inv have none: "remove_thread_t st = None" and dtor: "destructor_at st = dtor_not_called"
    by (simp_all add: pool_inv_def)
  with mon have ex: "list_ex is_running_monitor (m_threads st)"
    by (simp add: monitor_running_def)
  show ?thesis
  proof (cases a)
    case (Schedule n abs_time)
    with step mon show ?thesis
      by (auto simp: schedule_def monitor_running_def split: if_splits)
  next
    case (Worker i now)
    with step obtain st1 w' where i: "i < length (m_threads st)"
      and ws: "worker_thread_step now st (m_threads st ! i) = Some (st1, w')"
      and st': "st' = st1\<lparr>m_threads := (m_threads st1)[i := w']\<rparr>"
      by (auto split: if_splits option.splits)
    note frame = worker_thread_step_frame [OF ws]
    with st' run have "\<not> m_stopPool st"
      by simp
    with ws have "\<not> is_running_monitor (m_threads st ! i)"
      by (rule worker_thread_step_monitor_blocked)
    with ex have "list_ex is_running_monitor ((m_threads st)[i := w'])"
      by (rule list_ex_update)
    with st' frame show ?thesis
      by (simp add: monitor_running_def)
  next
    case (Added_worker now)
    with step True show ?thesis
      by (auto split: monitor_pc.splits option.splits)
  next
    case (Removed_worker now)
    with step none show ?thesis
      by simp
  next
    case Monitor_begin
    with step obtain b: "pool_monitor_begin st = Inr st'" and head: "monitor_at st = mon_loop_head"
      by (auto split: if_splits sum.splits)
    from pool_monitor_begin_inner_loop [OF b head] True
    have "st' = st\<lparr>step_count := step_count st', resize_flag := resize_flag st'\<rparr>"
      by auto
    then have "monitor_running st' =
        monitor_running (st\<lparr>step_count := step_count st', resize_flag := resize_flag st'\<rparr>)"
      by (rule arg_cong)
    with mon show ?thesis
      by (simp add: monitor_running_def)
  next
    case Monitor_grow
    with step ex show ?thesis
      by (auto simp: monitor_running_def pool_monitor_grown_def split: if_splits)
  next
    case Monitor_push
    with step True show ?thesis
      by (auto split: monitor_pc.splits if_splits)
  next
    case Monitor_count
    with step True show ?thesis
      by (auto split: if_splits)
  next
    case Monitor_examine
    with step True ex show ?thesis
      by (auto simp: monitor_running_def pool_monitor_shrunk_def remove_idle_examine_def
          split: monitor_pc.splits if_splits)
  next
    case Monitor_decrement
    with step True show ?thesis
      by (auto simp: remove_idle_decrement_def split: monitor_pc.splits if_splits)
  next
    case Monitor_join
    with step True show ?thesis
      by (auto simp: remove_idle_erase_def split: monitor_pc.splits if_splits)
  next
    case Destructor_stop
    with step run show ?thesis
      by (auto split: if_splits)
  next
    case Destructor_shutdown
    with step dtor show ?thesis
      by simp
  next
    case Destructor_remove_thread
    with step dtor show ?thesis
      by simp
  next
    case Destructor_join
    with step dtor show ?thesis
      by simp
  qed
qed

text \<open>The resize flag leaves \<open>none\<close> only in an iteration of the monitor.\<close>

lemma step_resize_flag:
  assumes "step st a = Some st'"
  shows "resize_flag st' = resize_flag st \<or> resize_flag st' = flag_no_resize \<or> monitor_running st"
proof (cases a)
  case (Worker i now)
  with assms show ?thesis
    by (auto split: if_splits option.splits dest: worker_thread_step_frame)
next
  case (Added_worker now)
  with assms show ?thesis
    by (auto split: monitor_pc.splits option.splits dest: worker_thread_step_frame)
next
  case (Removed_worker now)
  with assms show ?thesis
    by (auto split: if_splits option.splits dest: worker_thread_step_frame)
qed (use assms in \<open>auto simp: schedule_def add_thread_push_def add_thread_count_def
    pool_monitor_grown_def remove_idle_examine_def remove_idle_decrement_def remove_idle_erase_def
    pool_monitor_shrunk_def destructor_shutdown_def remove_thread_interrupt_def
    remove_thread_join_def split: if_splits option.splits monitor_pc.splits\<close>)

lemma run_resize_flag:
  "run st as = Some st' \<Longrightarrow> pool_inv st \<Longrightarrow> \<not> m_stopPool st' \<Longrightarrow>
     (resize_flag st \<noteq> flag_no_resize \<longrightarrow> monitor_running st) \<Longrightarrow>
     (resize_flag st' \<noteq> flag_no_resize \<longrightarrow> monitor_running st')"
proof (induction as arbitrary: st)
  case Nil
  then show ?case
    by simp
next
  case (Cons a as)
  then obtain st1 where s: "step st a = Some st1" and r: "run st1 as = Some st'"
    by (auto split: option.splits)
  from run_stopPool [OF r] Cons.prems(3) have run1: "\<not> m_stopPool st1"
    by auto
  with s Cons.prems(2) have inv1: "pool_inv st1"
    by (rule step_pool_inv)
  have "monitor_running st1" if "resize_flag st1 \<noteq> flag_no_resize"
  proof -
    from step_resize_flag [OF s] that Cons.prems(4) have "monitor_running st"
      by auto
    with Cons.prems(2) show ?thesis
      using s run1 by (rule step_monitor_running)
  qed
  with Cons.IH [OF r inv1 Cons.prems(3)] show ?case
    by simp
qed

lemma reachable_monitor_running:
  assumes "impl_ctor hw min_threads max_threads timeout_add timeout_del on_shutdown = Inr st0"
    and "run st0 as = Some st"
    and "\<not> m_stopPool st"
    and "resize_flag st \<noteq> flag_no_resize"
  shows "monitor_running st"
proof -
  from assms(1) have "resize_flag st0 = flag_no_resize"
    by (auto simp: impl_ctor_eq constructed_def split: if_splits)
  with run_resize_flag [OF assms(2) impl_ctor_pool_inv [OF assms(1)] assms(3)] assms(4)
  show ?thesis
    by simp
qed

section \<open>Growing\<close>

text \<open>
  C2, as amended.  In every state reached from a constructed pool before shutdown where
  the grow step fires (the classification and the flag are \<open>up\<close> and the incremented step
  count is \<open>max(timeout_add, 2)\<close>) and the conversion to \<open>unsigned\<close> is defined, the monitor
  computes \<open>new_size = min(m_maxThreads, unsigned(float(pool_size) * 1.5f))\<close>, adds new
  workers until \<open>pool_size\<close> is \<open>new_size\<close>, and resets the flag to \<open>none\<close> and the step count
  to 0.  The product, rounded to single precision, is the floor of \<open>pool_size * 1.5\<close>
  whenever \<open>3 * pool_size < 2 ^ 24\<close>.
\<close>

theorem C2_grow_step:
  assumes "impl_ctor hw min_threads max_threads timeout_add timeout_del on_shutdown = Inr st0"
    and "run st0 as = Some st"
    and "\<not> m_stopPool st"
    and "step_flag st = flag_resize_up"
    and "resize_flag st = flag_resize_up"
    and "step_count st + 1 = MAX_STEPS_UP st"
    and "unsigned_times_up_factor (pool_size st) = Inr u"
  shows "pool_monitor_iteration st =
           Inr (st\<lparr>step_count := 0, resize_flag := flag_no_resize,
                   next_pool_size := min (m_maxThreads st) u,
                   monitor_at := mon_loop_head,
                   m_threads := m_threads st @
                     replicate (unat (min (m_maxThreads st) u) - unat (pool_size st)) new_thread,
                   m_threadCount := min (m_maxThreads st) u\<rparr>) \<and>
         (3 * unat (pool_size st) < 2 ^ 24 \<longrightarrow> unat u = 3 * unat (pool_size st) div 2)"
proof -
  from assms(1-3) have "pool_inv st"
    by (rule reachable_pool_inv)
  then have le: "pool_size st \<le> m_maxThreads st"
    by (simp add: pool_inv_def pool_size_def)
  from pool_monitor_iteration_grow [OF assms(4-6) le assms(7)]
    unsigned_times_up_factor_floor [OF assms(7)]
  show ?thesis
    by blast
qed

theorem C2_grow_step_witness:
  "impl_ctor 4 5 16 0 0 shutdown_option_cancel_tasks =
     Inr (constructed 6 16 0 0 shutdown_option_cancel_tasks) \<and>
   run (constructed 6 16 0 0 shutdown_option_cancel_tasks) example_grow_trace = Some example_full \<and>
   \<not> m_stopPool example_full \<and>
   step_flag example_full = flag_resize_up \<and>
   resize_flag example_full = flag_resize_up \<and>
   step_count example_full + 1 = MAX_STEPS_UP example_full \<and>
   unsigned_times_up_factor (pool_size example_full) = Inr 9 \<and>
   pool_monitor_iteration example_full =
     Inr (example_full\<lparr>step_count := 0, resize_flag := flag_no_resize, next_pool_size := 9,
            m_threads := [monitor_worker, running_worker 1, running_worker 2, running_worker 3,
                          running_worker 4, running_worker 5, new_thread, new_thread, new_thread],
            m_threadCount := 9\<rparr>)"
proof -
  have fires: "\<not> m_stopPool example_full"
    "step_flag example_full = flag_resize_up" "resize_flag example_full = flag_resize_up"
    "step_count example_full + 1 = MAX_STEPS_UP example_full"
    "unsigned_times_up_factor (pool_size example_full) = Inr 9"
    by (simp_all add: example_full_def step_flag_def active_tasks_def pool_size_def MAX_STEPS_UP_def
        unsigned_times_up_factor_6)
  with C2_grow_step [OF impl_ctor_examples(1) example_full_reachable fires]
    impl_ctor_examples(1) example_full_reachable
  show ?thesis
    by (simp add: example_full_def pool_size_def replicate_3)
qed

text \<open>
  The claim as stated fails at a pool of 5592409 workers: the product 8388613.5 lies
  between two singles and is rounded to the even one, 8388614, where the floor is
  8388613.
\<close>

theorem C2_counterexample:
  "step_flag example_5592409 = flag_resize_up \<and>
   resize_flag example_5592409 = flag_resize_up \<and>
   step_count example_5592409 + 1 = MAX_STEPS_UP example_5592409 \<and>
   pool_size example_5592409 = 5592409 \<and>
   m_maxThreads example_5592409 = 10000000 \<and>
   pool_monitor_begin example_5592409 =
     Inr (example_5592409\<lparr>step_count := 100, next_pool_size := 8388614,
            monitor_at := mon_grow_loop\<rparr>) \<and>
   map_sum id pool_size (pool_monitor_iteration example_5592409) = Inr 8388614 \<and>
   min (10000000::nat) (5592409 * 3 div 2) = 8388613"
proof -
  have fires: "step_flag example_5592409 = flag_resize_up"
    "resize_flag example_5592409 = flag_resize_up"
    "step_count example_5592409 + 1 = MAX_STEPS_UP example_5592409"
    "pool_size example_5592409 \<le> m_maxThreads example_5592409"
    "unsigned_times_up_factor (pool_size example_5592409) = Inr 8388614"
    by (simp_all add: example_5592409_def step_flag_def active_tasks_def pool_size_def
        MAX_STEPS_UP_def unsigned_times_up_factor_5592409)
  have "pool_monitor_begin example_5592409 =
     Inr (example_5592409\<lparr>step_count := MAX_STEPS_UP example_5592409,
            next_pool_size := min (m_maxThreads example_5592409) 8388614,
            monitor_at := mon_grow_loop\<rparr>)"
    using fires(1-3,5) by (rule pool_monitor_begin_grow)
  then have "pool_monitor_begin example_5592409 =
     Inr (example_5592409\<lparr>step_count := 100, next_pool_size := 8388614,
            monitor_at := mon_grow_loop\<rparr>)"
    by (simp add: example_5592409_def MAX_STEPS_UP_def)
  moreover have "map_sum id pool_size (pool_monitor_iteration example_5592409) = Inr 8388614"
    using pool_monitor_iteration_grow [OF fires]
    by (simp add: pool_size_def example_5592409_def)
  ultimately show ?thesis
    using fires by (simp add: example_5592409_def pool_size_def)
qed

section \<open>Shrinking\<close>

lemma remove_idle_scanned_split:
  assumes "pre = take (remove_idle_scanned n ws) ws" and "post = drop (remove_idle_scanned n ws) ws"
  shows "ws = pre @ post \<and>
         length (filter idle_thread pre) \<le> n \<and>
         (post = [] \<or> length (filter idle_thread pre) = n \<and> (pre = [] \<or> idle_thread (last pre)))"
proof -
  let ?k = "remove_idle_scanned n ws"
  note spec = remove_idle_scanned_spec [of n ws]
  have "post = [] \<or> length (filter idle_thread pre) = n \<and> (pre = [] \<or> idle_thread (last pre))"
  proof (cases "?k < length ws")
    case False
    then show ?thesis
      by (simp add: assms)
  next
    case True
    with spec have n: "length (filter idle_thread pre) = n"
      and last: "?k = 0 \<or> idle_thread (ws ! (?k - 1))"
      by (simp_all add: assms)
    have "pre = [] \<or> idle_thread (last pre)"
    proof (cases "?k = 0")
      case True
      then show ?thesis
        by (simp add: assms)
    next
      case False
      with True have "take ?k ws \<noteq> []" "length (take ?k ws) = ?k"
        by auto
      then have "last pre = ws ! (?k - 1)"
        using False by (simp add: assms last_conv_nth)
      with False last show ?thesis
        by simp
    qed
    with n show ?thesis
      by simp
  qed
  with spec show ?thesis
    by (simp add: assms)
qed

text \<open>The iteration in which the shrink step fires.\<close>

lemma pool_monitor_begin_shrink:
  assumes "step_flag st = flag_resize_down"
    and "resize_flag st = flag_resize_down"
    and "step_count st + 1 = MAX_STEPS_DOWN st"
    and "new_size = max (m_minThreads st) (unsigned_div_down_factor (pool_size st))"
  shows "pool_monitor_begin st =
           Inr (st\<lparr>step_count := MAX_STEPS_DOWN st, next_pool_size := new_size,
                   monitor_at := mon_remove_idle_loop 0 (pool_size st - new_size)\<rparr>)"
  using assms
  by (simp add: pool_monitor_begin_def pool_monitor_resize_def Let_def MAX_STEPS_DOWN_def
      pool_size_def)

lemma pool_monitor_iteration_shrink:
  assumes "step_flag st = flag_resize_down"
    and "resize_flag st = flag_resize_down"
    and "step_count st + 1 = MAX_STEPS_DOWN st"
    and "new_size = max (m_minThreads st) (unsigned_div_down_factor (pool_size st))"
    and "pre = take (remove_idle_scanned (unat (pool_size st - new_size)) (m_threads st)) (m_threads st)"
    and "post = drop (remove_idle_scanned (unat (pool_size st - new_size)) (m_threads st)) (m_threads st)"
  shows "pool_monitor_iteration st =
           Inr (st\<lparr>step_count := 0, resize_flag := flag_no_resize, next_pool_size := new_size,
                   monitor_at := mon_loop_head,
                   m_threads := filter m_busy pre @ post,
                   m_threadCount := m_threadCount st - of_nat (length (filter idle_thread pre))\<rparr>)"
proof -
  let ?count = "pool_size st - new_size"
  let ?st1 = "st\<lparr>step_count := MAX_STEPS_DOWN st, next_pool_size := new_size,
                  monitor_at := mon_remove_idle_loop 0 ?count\<rparr>"
  have start: "pool_monitor_begin st = Inr ?st1"
    using assms(1-4) by (rule pool_monitor_begin_shrink)
  have "remove_idle_threads_from 0 ?count ?st1 =
      ?st1\<lparr>m_threads := filter m_busy pre @ post,
            m_threadCount := m_threadCount st - of_nat (length (filter idle_thread pre))\<rparr>"
    by (subst remove_idle_threads_from_eq) (simp_all add: assms(5,6))
  then show ?thesis
    by (simp add: pool_monitor_iteration_def start pool_monitor_shrunk_def)
qed

lemma run_pool_monitor_shrink:
  assumes inv: "pool_inv st"
    and mon: "monitor_running st"
    and head: "monitor_at st = mon_loop_head"
    and run: "\<not> m_stopPool st"
    and fires: "step_flag st = flag_resize_down" "resize_flag st = flag_resize_down"
      "step_count st + 1 = MAX_STEPS_DOWN st"
    and new: "new_size = max (m_minThreads st) (unsigned_div_down_factor (pool_size st))"
    and iter: "pool_monitor_iteration st = Inr st'"
  shows "run st (Monitor_begin # remove_idle_actions 0 (pool_size st - new_size) (m_threads st)) =
           Some st'"
proof -
  let ?count = "pool_size st - new_size"
  let ?st1 = "st\<lparr>step_count := MAX_STEPS_DOWN st, next_pool_size := new_size,
                  monitor_at := mon_remove_idle_loop 0 ?count\<rparr>"
  have start: "pool_monitor_begin st = Inr ?st1"
    using fires new by (rule pool_monitor_begin_shrink)
  with mon head run have first: "step st Monitor_begin = Some ?st1"
    by simp
  from start iter have st': "st' = pool_monitor_shrunk (remove_idle_threads_from 0 ?count ?st1)"
    by (simp add: pool_monitor_iteration_def)
  from inv have "remove_thread_t st = None"
    by (simp add: pool_inv_def)
  with mon have "list_ex is_running_monitor (m_threads ?st1)"
    by (simp add: monitor_running_def)
  moreover from pool_inv_idle_waiting [OF inv] head
  have "\<forall>w \<in> set (m_threads ?st1). \<not> m_busy w \<longrightarrow> pc w = pc_wait"
    by simp
  moreover have "monitor_at ?st1 = mon_remove_idle_loop 0 ?count"
    by simp
  ultimately have "run ?st1 (remove_idle_actions 0 ?count (m_threads ?st1)) = Some st'"
    unfolding st' by (intro run_remove_idle) simp_all
  with first show ?thesis
    by simp
qed

text \<open>The steps inside \<open>remove_idle_threads\<close> in a state of the running pool.\<close>

lemma pool_inv_examine:
  assumes inv: "pool_inv s" and at: "monitor_at s = mon_remove_idle_loop it count"
  shows "it \<le> length (m_threads s) \<and> length (m_threads s) = unat (pool_size s) \<and>
         unat (pool_size s) = unat (next_pool_size s) + unat count \<and>
         m_minThreads s \<le> next_pool_size s \<and>
         step s Monitor_examine =
           Some (if it < length (m_threads s) \<and> 0 < count
                 then if m_busy (m_threads s ! it)
                      then s\<lparr>monitor_at := mon_remove_idle_loop (it + 1) count\<rparr>
                      else s\<lparr>m_threads :=
                               (m_threads s)[it := (m_threads s ! it)\<lparr>interrupt_requested := True\<rparr>],
                             monitor_at := mon_remove_idle_interrupted it count\<rparr>
                 else s\<lparr>resize_flag := flag_no_resize, step_count := 0,
                        monitor_at := mon_loop_head\<rparr>)"
  using assms
  by (simp add: pool_inv_def pool_size_def remove_idle_examine_def pool_monitor_shrunk_def)

lemma pool_inv_decrement:
  assumes inv: "pool_inv s" and at: "monitor_at s = mon_remove_idle_interrupted it count"
  shows "it < length (m_threads s) \<and> idle_thread (m_threads s ! it) \<and> 0 < count \<and>
         step s Monitor_decrement =
           Some (s\<lparr>m_threadCount := m_threadCount s - 1,
                   monitor_at := mon_remove_idle_join it (count - 1)\<rparr>)"
proof -
  from inv at have it: "it < length (m_threads s)" and pos: "0 < count"
    and mon: "monitor_running s"
    by (simp_all add: pool_inv_def)
  then have "it < length (started_threads s)" "started_threads s ! it = m_threads s ! it"
    by (simp_all add: started_threads_def nth_append)
  with pool_inv_started [OF inv, of it] at have "worker_leaving (m_threads s ! it)"
    by simp
  then have "idle_thread (m_threads s ! it)"
    by (simp add: worker_leaving_def idle_thread_def)
  with it pos mon at show ?thesis
    by (simp add: remove_idle_decrement_def)
qed

lemma pool_inv_join:
  assumes inv: "pool_inv s" and at: "monitor_at s = mon_remove_idle_join it count"
  shows "it < length (m_threads s) \<and> idle_thread (m_threads s ! it) \<and>
         \<not> is_running (m_threads s ! it) \<and>
         length (m_threads s) = unat (pool_size s) + 1 \<and>
         (pc (m_threads s ! it) \<noteq> pc_exited \<longrightarrow>
            step s Monitor_join = None \<and>
            step s (Worker it now) =
              Some (s\<lparr>m_threads := (m_threads s)[it := (m_threads s ! it)\<lparr>pc := pc_exited\<rparr>]\<rparr>)) \<and>
         (pc (m_threads s ! it) = pc_exited \<longrightarrow>
            step s Monitor_join =
              Some (s\<lparr>m_threads := take it (m_threads s) @ drop (Suc it) (m_threads s),
                      monitor_at := mon_remove_idle_loop it count\<rparr>))"
proof -
  let ?w = "m_threads s ! it"
  from inv at have it: "it < length (m_threads s)"
    and mon: "monitor_running s"
    and len: "length (m_threads s) = unat (pool_size s) + 1"
    by (simp_all add: pool_inv_def pool_size_def)
  then have "it < length (started_threads s)" "started_threads s ! it = ?w"
    by (simp_all add: started_threads_def nth_append)
  with pool_inv_started [OF inv, of it] at have leaving: "worker_leaving ?w"
    by simp
  then have idle: "idle_thread ?w" "\<not> is_running ?w"
    by (simp_all add: worker_leaving_def idle_thread_def worker_leaving_not_running)
  have "worker_thread_step now s ?w = Some (s, ?w\<lparr>pc := pc_exited\<rparr>)" if "pc ?w \<noteq> pc_exited"
    using leaving that by (auto simp: worker_leaving_def worker_thread_step_def)
  with it have "step s (Worker it now) = Some (s\<lparr>m_threads := (m_threads s)[it := ?w\<lparr>pc := pc_exited\<rparr>]\<rparr>)"
    if "pc ?w \<noteq> pc_exited"
    using that by simp
  with it mon at idle len show ?thesis
    by (simp add: remove_idle_erase_def)
qed

lemma pool_monitor_iteration_example_idle:
  "pool_monitor_iteration example_idle =
     Inr (example_idle\<lparr>step_count := 0, resize_flag := flag_no_resize, next_pool_size := 6,
            m_threads := [monitor_worker, deferring_worker, idle_worker, idle_worker, idle_worker,
                          idle_worker],
            m_threadCount := 6\<rparr>)"
  by (simp add: pool_monitor_iteration_def example_idle_def step_defs remove_idle_threads_from_eq
      unsigned_div_down_factor_def round_to_float_def idle_worker_def monitor_worker_def
      deferring_worker_def new_thread_def idle_thread_def)

text \<open>
  C3, as amended.  In every state reached from a constructed pool before shutdown where
  the monitor is at the head of its loop and the shrink step fires (the classification
  and the flag are \<open>down\<close> and the incremented step count is \<open>max(timeout_del, 2)\<close>), the
  monitor computes \<open>new_size = max(m_minThreads, unsigned(float(pool_size) / 2.0f))\<close>,
  which is \<open>max(m_minThreads, pool_size div 2)\<close> below \<open>2 ^ 24\<close>.  The floor \<open>m_minThreads\<close> is
  the value of \<open>compute_min_threads\<close>: wherever a monitor exists, the constructor's
  resolved minimum plus one.  The new size is at most \<open>pool_size\<close>, and the monitor calls
  \<open>remove_idle_threads\<close> for \<open>pool_size - new_size\<close> workers, the iterator on the first worker.

  When no worker changes its busy flag during the scan, the workers examined are a
  prefix \<open>pre\<close> of the list: one that ends with the idle worker that brings the count to
  zero, or the whole list with no more idle workers than were asked for.  The idle
  workers of \<open>pre\<close> are removed; its busy workers and the rest \<open>post\<close> of the list stay, in
  their order; the counter goes down by the number removed; the flag and the step count
  are reset.  This is what the steps of the monitor and of the workers it interrupts
  give.

  In any later state \<open>s\<close> before shutdown the scan goes on one worker at a time, on the
  busy flag as it is when the scan reads it.  At the head of its loop, with the iterator
  at \<open>it\<close>: a busy worker is passed over and the iterator moves on; an idle one is
  interrupted; at the end of the list, or with nothing left to remove, the loop ends and
  the flag and the step count are reset, whatever is left of the count.  There
  \<open>pool_size\<close> is \<open>next_pool_size\<close> plus what is left of the count.  The interrupted worker
  is idle; the monitor decrements the count and \<open>m_threadCount\<close>, waits until the worker
  has returned, which is the worker's next step, and erases it from the list, the
  iterator staying where it is.  So the scan examines the workers in the order of the
  list, each at most once.
\<close>

theorem C3_shrink_step:
  assumes "impl_ctor hw min_threads max_threads timeout_add timeout_del on_shutdown = Inr st0"
    and "run st0 as = Some st"
    and "\<not> m_stopPool st"
    and "monitor_at st = mon_loop_head"
    and "step_flag st = flag_resize_down"
    and "resize_flag st = flag_resize_down"
    and "step_count st + 1 = MAX_STEPS_DOWN st"
    and "run st bs = Some s"
    and "\<not> m_stopPool s"
  shows "(\<exists>new_size pre post st'.
           new_size = max (m_minThreads st) (unsigned_div_down_factor (pool_size st)) \<and>
           new_size \<le> pool_size st \<and>
           (unat (pool_size st) < 2 ^ 24 \<longrightarrow>
              new_size = max (m_minThreads st) (pool_size st div 2)) \<and>
           (m_minThreads st < m_maxThreads st \<longrightarrow>
              m_minThreads st = spec_resolved_min hw min_threads max_threads + 1) \<and>
           step st Monitor_begin =
             Some (st\<lparr>step_count := MAX_STEPS_DOWN st, next_pool_size := new_size,
                     monitor_at := mon_remove_idle_loop 0 (pool_size st - new_size)\<rparr>) \<and>
           m_threads st = pre @ post \<and>
           length (filter idle_thread pre) \<le> unat (pool_size st - new_size) \<and>
           (post = [] \<or>
            length (filter idle_thread pre) = unat (pool_size st - new_size) \<and>
            (pre = [] \<or> idle_thread (last pre))) \<and>
           st' = st\<lparr>step_count := 0, resize_flag := flag_no_resize, next_pool_size := new_size,
                    monitor_at := mon_loop_head,
                    m_threads := filter m_busy pre @ post,
                    m_threadCount := m_threadCount st - of_nat (length (filter idle_thread pre))\<rparr> \<and>
           pool_monitor_iteration st = Inr st' \<and>
           run st (Monitor_begin #
                   remove_idle_actions 0 (pool_size st - new_size) (m_threads st)) = Some st') \<and>
         (monitor_at s = mon_remove_idle_loop it count \<longrightarrow>
            it \<le> length (m_threads s) \<and> length (m_threads s) = unat (pool_size s) \<and>
            unat (pool_size s) = unat (next_pool_size s) + unat count \<and>
            m_minThreads s \<le> next_pool_size s \<and>
            step s Monitor_examine =
              Some (if it < length (m_threads s) \<and> 0 < count
                    then if m_busy (m_threads s ! it)
                         then s\<lparr>monitor_at := mon_remove_idle_loop (it + 1) count\<rparr>
                         else s\<lparr>m_threads :=
                                  (m_threads s)[it := (m_threads s ! it)\<lparr>interrupt_requested := True\<rparr>],
                                monitor_at := mon_remove_idle_interrupted it count\<rparr>
                    else s\<lparr>resize_flag := flag_no_resize, step_count := 0,
                           monitor_at := mon_loop_head\<rparr>)) \<and>
         (monitor_at s = mon_remove_idle_interrupted it count \<longrightarrow>
            it < length (m_threads s) \<and> idle_thread (m_threads s ! it) \<and> 0 < count \<and>
            step s Monitor_decrement =
              Some (s\<lparr>m_threadCount := m_threadCount s - 1,
                      monitor_at := mon_remove_idle_join it (count - 1)\<rparr>)) \<and>
         (monitor_at s = mon_remove_idle_join it count \<longrightarrow>
            it < length (m_threads s) \<and> idle_thread (m_threads s ! it) \<and>
            \<not> is_running (m_threads s ! it) \<and>
            length (m_threads s) = unat (pool_size s) + 1 \<and>
            (pc (m_threads s ! it) \<noteq> pc_exited \<longrightarrow>
               step s Monitor_join = None \<and>
               step s (Worker it now) =
                 Some (s\<lparr>m_threads := (m_threads s)[it := (m_threads s ! it)\<lparr>pc := pc_exited\<rparr>]\<rparr>)) \<and>
            (pc (m_threads s ! it) = pc_exited \<longrightarrow>
               step s Monitor_join =
                 Some (s\<lparr>m_threads := take it (m_threads s) @ drop (Suc it) (m_threads s),
                         monitor_at := mon_remove_idle_loop it count\<rparr>)))"
proof -
  define new_size where "new_size = max (m_minThreads st) (unsigned_div_down_factor (pool_size st))"
  define k where "k = remove_idle_scanned (unat (pool_size st - new_size)) (m_threads st)"
  define pre where "pre = take k (m_threads st)"
  define post where "post = drop k (m_threads st)"
  define st' where "st' = st\<lparr>step_count := 0, resize_flag := flag_no_resize,
      next_pool_size := new_size, monitor_at := mon_loop_head,
      m_threads := filter m_busy pre @ post,
      m_threadCount := m_threadCount st - of_nat (length (filter idle_thread pre))\<rparr>"
  from assms(1-3) have inv: "pool_inv st"
    by (rule reachable_pool_inv)
  from assms(6) have "resize_flag st \<noteq> flag_no_resize"
    by simp
  with assms(1-3) have mon: "monitor_running st"
    by (rule reachable_monitor_running)
  from pool_monitor_begin_shrink [OF assms(5-7) new_size_def] mon assms(3,4)
  have first: "step st Monitor_begin =
      Some (st\<lparr>step_count := MAX_STEPS_DOWN st, next_pool_size := new_size,
              monitor_at := mon_remove_idle_loop 0 (pool_size st - new_size)\<rparr>)"
    by simp
  have iter: "pool_monitor_iteration st = Inr st'"
    unfolding st'_def pre_def post_def k_def
    using assms(5-7) new_size_def refl refl by (rule pool_monitor_iteration_shrink)
  from inv mon assms(4,3,5-7) new_size_def iter
  have whole: "run st (Monitor_begin #
      remove_idle_actions 0 (pool_size st - new_size) (m_threads st)) = Some st'"
    by (rule run_pool_monitor_shrink)
  have split: "m_threads st = pre @ post"
    "length (filter idle_thread pre) \<le> unat (pool_size st - new_size)"
    "post = [] \<or> length (filter idle_thread pre) = unat (pool_size st - new_size) \<and>
       (pre = [] \<or> idle_thread (last pre))"
    using remove_idle_scanned_split [of pre "unat (pool_size st - new_size)" "m_threads st" post]
    by (simp_all add: pre_def post_def k_def)
  have floor: "new_size = max (m_minThreads st) (pool_size st div 2)" if "unat (pool_size st) < 2 ^ 24"
    using that by (simp add: new_size_def unsigned_div_down_factor_exact)
  have "m_minThreads st0 = compute_min_threads hw min_threads max_threads"
    "m_maxThreads st0 = max_threads"
    using assms(1) by (auto simp: impl_ctor_eq constructed_def split: if_splits)
  with run_config [OF assms(2)]
  have "m_minThreads st = compute_min_threads hw min_threads max_threads" "m_maxThreads st = max_threads"
    by simp_all
  then have minimum: "m_minThreads st = spec_resolved_min hw min_threads max_threads + 1"
    if "m_minThreads st < m_maxThreads st"
    using that by (auto simp: compute_min_threads_eq split: if_splits)
  from inv have "m_minThreads st \<le> pool_size st"
    by (simp add: pool_inv_def pool_size_def)
  with unsigned_div_down_factor_le [of "pool_size st"] have le: "new_size \<le> pool_size st"
    by (simp add: new_size_def)
  have fires: "\<exists>new_size pre post st'.
      new_size = max (m_minThreads st) (unsigned_div_down_factor (pool_size st)) \<and>
      new_size \<le> pool_size st \<and>
      (unat (pool_size st) < 2 ^ 24 \<longrightarrow>
         new_size = max (m_minThreads st) (pool_size st div 2)) \<and>
      (m_minThreads st < m_maxThreads st \<longrightarrow>
         m_minThreads st = spec_resolved_min hw min_threads max_threads + 1) \<and>
      step st Monitor_begin =
        Some (st\<lparr>step_count := MAX_STEPS_DOWN st, next_pool_size := new_size,
                monitor_at := mon_remove_idle_loop 0 (pool_size st - new_size)\<rparr>) \<and>
      m_threads st = pre @ post \<and>
      length (filter idle_thread pre) \<le> unat (pool_size st - new_size) \<and>
      (post = [] \<or>
       length (filter idle_thread pre) = unat (pool_size st - new_size) \<and>
       (pre = [] \<or> idle_thread (last pre))) \<and>
      st' = st\<lparr>step_count := 0, resize_flag := flag_no_resize, next_pool_size := new_size,
               monitor_at := mon_loop_head,
               m_threads := filter m_busy pre @ post,
               m_threadCount := m_threadCount st - of_nat (length (filter idle_thread pre))\<rparr> \<and>
      pool_monitor_iteration st = Inr st' \<and>
      run st (Monitor_begin #
              remove_idle_actions 0 (pool_size st - new_size) (m_threads st)) = Some st'"
    using new_size_def le floor minimum first split st'_def iter whole
    by (intro exI [of _ new_size] exI [of _ pre] exI [of _ post] exI [of _ st']) simp
  have "run st0 (as @ bs) = Some s"
    using assms(2,8) by (simp add: run_append)
  with assms(1) have inv': "pool_inv s"
    using assms(9) by (rule reachable_pool_inv)
  show ?thesis
    by (intro conjI;
        (rule fires |
         (rule impI,
          erule pool_inv_examine [OF inv'] pool_inv_decrement [OF inv'] pool_inv_join [OF inv'])))
qed

theorem C3_shrink_step_witness:
  "impl_ctor 4 5 16 0 0 shutdown_option_cancel_tasks =
     Inr (constructed 6 16 0 0 shutdown_option_cancel_tasks) \<and>
   run (constructed 6 16 0 0 shutdown_option_cancel_tasks) (example_grow_trace @ example_shrink_trace) =
     Some example_idle \<and>
   \<not> m_stopPool example_idle \<and>
   monitor_at example_idle = mon_loop_head \<and>
   step_flag example_idle = flag_resize_down \<and>
   resize_flag example_idle = flag_resize_down \<and>
   step_count example_idle + 1 = MAX_STEPS_DOWN example_idle \<and>
   run example_idle example_scan_trace = Some example_scan \<and>
   \<not> m_stopPool example_scan \<and>
   pool_monitor_iteration example_idle =
     Inr (example_idle\<lparr>step_count := 0, resize_flag := flag_no_resize, next_pool_size := 6,
            m_threads := [monitor_worker, deferring_worker, idle_worker, idle_worker, idle_worker,
                          idle_worker],
            m_threadCount := 6\<rparr>) \<and>
   run example_idle (Monitor_begin # remove_idle_actions 0 3 (m_threads example_idle)) =
     Some (example_idle\<lparr>step_count := 0, resize_flag := flag_no_resize, next_pool_size := 6,
            m_threads := [monitor_worker, deferring_worker, idle_worker, idle_worker, idle_worker,
                          idle_worker],
            m_threadCount := 6\<rparr>) \<and>
   monitor_at example_scan = mon_remove_idle_join 1 2 \<and>
   idle_thread (m_threads example_scan ! 1) \<and>
   m_busy (m_threads example_scan ! 3) \<and>
   step example_scan Monitor_join = None \<and>
   step example_scan (Worker 1 7) =
     Some (example_scan\<lparr>m_threads :=
             [monitor_worker, idle_worker\<lparr>interrupt_requested := True, pc := pc_exited\<rparr>,
              deferring_worker, deferring_worker, idle_worker, idle_worker, idle_worker,
              idle_worker, idle_worker]\<rparr>)"
proof -
  have ctor: "impl_ctor 4 5 16 0 0 shutdown_option_cancel_tasks =
     Inr (constructed 6 16 0 0 shutdown_option_cancel_tasks)"
    by (simp add: impl_ctor_eq compute_min_threads_def)
  have reach: "run (constructed 6 16 0 0 shutdown_option_cancel_tasks)
      (example_grow_trace @ example_shrink_trace) = Some example_idle"
    by (simp add: run_append example_full_reachable example_idle_reachable)
  have fires: "\<not> m_stopPool example_idle" "monitor_at example_idle = mon_loop_head"
    "step_flag example_idle = flag_resize_down" "resize_flag example_idle = flag_resize_down"
    "step_count example_idle + 1 = MAX_STEPS_DOWN example_idle"
    by (simp_all add: example_idle_def step_flag_def active_tasks_def pool_size_def
        MAX_STEPS_DOWN_def)
  have scan: "\<not> m_stopPool example_scan" "monitor_at example_scan = mon_remove_idle_join 1 2"
    "pc (m_threads example_scan ! 1) \<noteq> pc_exited" "m_busy (m_threads example_scan ! 3)"
    "(m_threads example_scan)[1 := (m_threads example_scan ! 1)\<lparr>pc := pc_exited\<rparr>] =
       [monitor_worker, idle_worker\<lparr>interrupt_requested := True, pc := pc_exited\<rparr>,
        deferring_worker, deferring_worker, idle_worker, idle_worker, idle_worker,
        idle_worker, idle_worker]"
    by (simp_all add: example_scan_def idle_worker_def deferring_worker_def new_thread_def)
  have count: "pool_size example_idle -
      max (m_minThreads example_idle) (unsigned_div_down_factor (pool_size example_idle)) = 3"
    by (simp add: example_idle_def pool_size_def unsigned_div_down_factor_def round_to_float_def)
  note inst = C3_shrink_step [OF ctor reach fires example_scan_reachable scan(1), of 1 2 7]
  from inst [THEN conjunct1] obtain new_size st'
    where "new_size = max (m_minThreads example_idle) (unsigned_div_down_factor (pool_size example_idle))"
      and "pool_monitor_iteration example_idle = Inr st'"
      and "run example_idle (Monitor_begin #
             remove_idle_actions 0 (pool_size example_idle - new_size) (m_threads example_idle)) =
           Some st'"
    by (elim exE conjE) (rule that; assumption)
  then have whole: "run example_idle (Monitor_begin # remove_idle_actions 0 3 (m_threads example_idle)) =
     Some (example_idle\<lparr>step_count := 0, resize_flag := flag_no_resize, next_pool_size := 6,
            m_threads := [monitor_worker, deferring_worker, idle_worker, idle_worker, idle_worker,
                          idle_worker],
            m_threadCount := 6\<rparr>)"
    by (simp add: pool_monitor_iteration_example_idle count)
  note at_join = inst [THEN conjunct2, THEN conjunct2, THEN conjunct2, THEN mp, OF scan(2)]
  from at_join scan(3) have join: "idle_thread (m_threads example_scan ! 1)"
    "step example_scan Monitor_join = None"
    "step example_scan (Worker 1 7) =
       Some (example_scan\<lparr>m_threads :=
         (m_threads example_scan)[1 := (m_threads example_scan ! 1)\<lparr>pc := pc_exited\<rparr>]\<rparr>)"
    by blast+
  show ?thesis
    using ctor reach fires example_scan_reachable scan(1,2,4) pool_monitor_iteration_example_idle
      whole join(1,2) join(3) [unfolded scan(5)]
    by (intro conjI)
qed

text \<open>
  The claim as stated fails for a pool constructed with a minimum of 5: at nine workers
  the new size is \<open>max(6, 4) = 6\<close>, not \<open>max(5, 4) = 5\<close>.
\<close>

theorem C3_counterexample:
  "impl_ctor 4 5 16 0 0 shutdown_option_cancel_tasks =
     Inr (constructed 6 16 0 0 shutdown_option_cancel_tasks) \<and>
   run (constructed 6 16 0 0 shutdown_option_cancel_tasks) (example_grow_trace @ example_shrink_trace) =
     Some example_idle \<and>
   monitor_at example_idle = mon_loop_head \<and>
   step_flag example_idle = flag_resize_down \<and>
   resize_flag example_idle = flag_resize_down \<and>
   step_count example_idle + 1 = MAX_STEPS_DOWN example_idle \<and>
   pool_size example_idle = 9 \<and>
   map_sum id next_pool_size (pool_monitor_iteration example_idle) = Inr 6 \<and>
   map_sum id pool_size (pool_monitor_iteration example_idle) = Inr 6 \<and>
   max (5::uint) (9 div 2) = 5"
proof -
  have ctor: "impl_ctor 4 5 16 0 0 shutdown_option_cancel_tasks =
     Inr (constructed 6 16 0 0 shutdown_option_cancel_tasks)"
    by (simp add: impl_ctor_eq compute_min_threads_def)
  have reach: "run (constructed 6 16 0 0 shutdown_option_cancel_tasks)
      (example_grow_trace @ example_shrink_trace) = Some example_idle"
    by (simp add: run_append example_full_reachable example_idle_reachable)
  have fires: "monitor_at example_idle = mon_loop_head"
    "step_flag example_idle = flag_resize_down" "resize_flag example_idle = flag_resize_down"
    "step_count example_idle + 1 = MAX_STEPS_DOWN example_idle"
    "pool_size example_idle = 9"
    by (simp_all add: example_idle_def step_flag_def active_tasks_def pool_size_def
        MAX_STEPS_DOWN_def)
  with ctor reach pool_monitor_iteration_example_idle show ?thesis
    by (simp add: pool_size_def)
qed

section \<open>Active tasks and the size of the pool\<close>

lemma pool_inv_running_bound:
  assumes inv: "pool_inv st"
  shows "length (filter is_running (started_threads st)) + (if leaving_at (monitor_at st) = None then 0 else 1)
           \<le> length (started_threads st)"
proof (cases "leaving_at (monitor_at st)")
  case None
  then show ?thesis
    by simp
next
  case (Some i)
  then have xs: "started_threads st = m_threads st"
    by (cases "monitor_at st") (simp_all add: started_threads_def)
  from Some inv have i: "i < length (m_threads st)"
    by (cases "monitor_at st") (simp_all add: pool_inv_def)
  with pool_inv_started [OF inv, of i] Some have "worker_leaving (m_threads st ! i)"
    by (simp add: xs)
  then have "\<not> is_running (m_threads st ! i)"
    by (rule worker_leaving_not_running)
  with length_filter_erase [OF i, of is_running]
  have "length (filter is_running (m_threads st)) =
      length (filter is_running (take i (m_threads st) @ drop (Suc i) (m_threads st)))"
    by simp
  also have "\<dots> \<le> length (take i (m_threads st) @ drop (Suc i) (m_threads st))"
    by (rule length_filter_le)
  also have "\<dots> = length (m_threads st) - 1"
    using i by simp
  finally show ?thesis
    using Some i by (simp add: xs)
qed

text \<open>
  C8, as amended.  In every state reached from a constructed pool before the destructor
  sets the shutdown flag, \<open>active_tasks\<close> is the number of started threads that are inside
  a task, and \<open>active_tasks \<le> pool_size\<close> holds unless the monitor is inside \<open>add_thread\<close>,
  between the creation of the thread, which runs at once, and the increment of
  \<open>m_threadCount\<close>; there \<open>active_tasks \<le> pool_size + 1\<close>.
\<close>

theorem C8_active_tasks_le_pool_size:
  assumes "impl_ctor hw min_threads max_threads timeout_add timeout_del on_shutdown = Inr st0"
    and "run st0 as = Some st"
    and "\<not> m_stopPool st"
  shows "unat (active_tasks st) = length (filter is_running (started_threads st)) \<and>
         (\<not> in_add_thread (monitor_at st) \<longrightarrow> active_tasks st \<le> pool_size st) \<and>
         unat (active_tasks st) \<le> unat (pool_size st) + 1"
proof -
  from assms have inv: "pool_inv st"
    by (rule reachable_pool_inv)
  then have active: "unat (m_activeTasks st) = length (filter is_running (started_threads st))"
    and len: "length (m_threads st) = unat (m_threadCount st) + uncounted (monitor_at st)"
    by (simp_all add: pool_inv_def)
  note bound = pool_inv_running_bound [OF inv]
  have "unat (m_activeTasks st) \<le> unat (m_threadCount st) + (if in_add_thread (monitor_at st) then 1 else 0)"
    using active len bound by (cases "monitor_at st") (simp_all add: started_threads_def)
  with active show ?thesis
    by (auto simp: active_tasks_def pool_size_def word_le_nat_alt split: if_splits)
qed

theorem C8_active_tasks_le_pool_size_witness:
  "impl_ctor 4 5 16 0 0 shutdown_option_cancel_tasks =
     Inr (constructed 6 16 0 0 shutdown_option_cancel_tasks) \<and>
   run (constructed 6 16 0 0 shutdown_option_cancel_tasks) example_grow_trace = Some example_full \<and>
   \<not> m_stopPool example_full \<and>
   \<not> in_add_thread (monitor_at example_full) \<and>
   active_tasks example_full = 6 \<and>
   pool_size example_full = 6 \<and>
   active_tasks example_full \<le> pool_size example_full \<and>
   run (constructed 6 16 0 0 shutdown_option_cancel_tasks)
     (example_grow_trace @ example_shrink_trace @ example_scan_trace) = Some example_scan \<and>
   \<not> m_stopPool example_scan \<and>
   \<not> in_add_thread (monitor_at example_scan) \<and>
   length (m_threads example_scan) = 9 \<and>
   pool_size example_scan = 8 \<and>
   active_tasks example_scan \<le> pool_size example_scan"
proof -
  have scan: "run (constructed 6 16 0 0 shutdown_option_cancel_tasks)
      (example_grow_trace @ example_shrink_trace @ example_scan_trace) = Some example_scan"
    by (simp add: run_append example_full_reachable example_idle_reachable example_scan_reachable)
  have facts: "\<not> m_stopPool example_full" "\<not> in_add_thread (monitor_at example_full)"
    "active_tasks example_full = 6" "pool_size example_full = 6"
    "\<not> m_stopPool example_scan" "\<not> in_add_thread (monitor_at example_scan)"
    "length (m_threads example_scan) = 9" "pool_size example_scan = 8"
    by (simp_all add: example_full_def example_scan_def active_tasks_def pool_size_def)
  from C8_active_tasks_le_pool_size [OF impl_ctor_examples(1) example_full_reachable facts(1)]
    C8_active_tasks_le_pool_size [OF impl_ctor_examples(1) scan facts(5)] facts(2,6)
  have "active_tasks example_full \<le> pool_size example_full"
    "active_tasks example_scan \<le> pool_size example_scan"
    by blast+
  with impl_ctor_examples(1) example_full_reachable scan facts show ?thesis
    by (intro conjI)
qed

text \<open>
  The claim as stated fails in two places.  A destructor told to cancel decrements the
  counter in \<open>remove_thread\<close> while the thread it then joins is still inside its task: one
  active task, a pool size of 0.  And the thread that \<open>add_thread\<close> creates runs at once
  and can start a task before it is pushed and counted: seven active tasks, six
  workers in \<open>m_threads\<close>, a pool size of 6.
\<close>

theorem C8_counterexample:
  "impl_ctor 4 1 1 100 500 shutdown_option_cancel_tasks =
     Inr (constructed 1 1 100 500 shutdown_option_cancel_tasks) \<and>
   run (constructed 1 1 100 500 shutdown_option_cancel_tasks) example_destroy_trace =
     Some example_destroying \<and>
   active_tasks example_destroying = 1 \<and>
   pool_size example_destroying = 0 \<and>
   \<not> active_tasks example_destroying \<le> pool_size example_destroying \<and>
   impl_ctor 4 5 16 0 0 shutdown_option_cancel_tasks =
     Inr (constructed 6 16 0 0 shutdown_option_cancel_tasks) \<and>
   run (constructed 6 16 0 0 shutdown_option_cancel_tasks) (example_grow_trace @ example_window_trace) =
     Some example_window \<and>
   \<not> m_stopPool example_window \<and>
   active_tasks example_window = 7 \<and>
   length (m_threads example_window) = 6 \<and>
   pool_size example_window = 6 \<and>
   \<not> active_tasks example_window \<le> pool_size example_window"
  by (simp add: impl_ctor_examples example_destroying_reachable run_append example_full_reachable
      example_window_reachable)
    (simp add: example_destroying_def example_window_def active_tasks_def pool_size_def)

section \<open>The monitor runs on a worker\<close>

text \<open>
  C9, as amended.  A pool constructed with \<open>m_minThreads < m_maxThreads\<close> submits its monitor
  through \<open>schedule\<close>, like any task: the constructor leaves it alone in the queue, with no
  task active.  A worker that has dequeued it increments \<open>m_activeTasks\<close> and enters it,
  and before shutdown the worker cannot leave it.  So from the moment a worker runs the
  monitor and until shutdown, \<open>active_tasks\<close> is at least 1 and, whatever step is taken, a
  worker still runs the monitor.
\<close>

theorem C9_monitor_occupies_worker:
  assumes "impl_ctor hw min_threads max_threads timeout_add timeout_del on_shutdown = Inr st0"
    and "m_minThreads st0 < m_maxThreads st0"
    and "run st0 as = Some st"
    and "\<not> m_stopPool st"
  shows "schedule (st0\<lparr>m_pendingTasks := []\<rparr>) pool_monitor_bound invalid_system_time =
           Inr (st0, [tasksCondition_notify_one]) \<and>
         m_pendingTasks st0 = [monitor_task] \<and>
         active_tasks st0 = 0 \<and>
         worker_thread_step now st (w\<lparr>pc := pc_dequeued monitor_task\<rparr>) =
           Some (st\<lparr>m_activeTasks := m_activeTasks st + 1\<rparr>, w\<lparr>pc := pc_running monitor_task\<rparr>) \<and>
         worker_thread_step now st (w\<lparr>pc := pc_running monitor_task\<rparr>) = None \<and>
         (monitor_running st \<longrightarrow>
            1 \<le> active_tasks st \<and>
            (\<forall>a st'. step st a = Some st' \<and> \<not> m_stopPool st' \<longrightarrow> monitor_running st'))"
proof -
  define m where "m = compute_min_threads hw min_threads max_threads"
  from assms(1) have st0: "st0 = constructed m max_threads timeout_add timeout_del on_shutdown"
    by (auto simp: impl_ctor_eq m_def split: if_splits)
  with assms(2) have "m < max_threads"
    by (simp add: constructed_def)
  then have queue: "m_pendingTasks st0 = [monitor_task]" "active_tasks st0 = 0"
    "\<not> m_stopPool st0"
    unfolding st0 by (simp_all add: constructed_def active_tasks_def)
  then have sched: "schedule (st0\<lparr>m_pendingTasks := []\<rparr>) pool_monitor_bound invalid_system_time =
      Inr (st0, [tasksCondition_notify_one])"
    by (simp add: schedule_def invalid_system_time_def monitor_task_def)
  from assms(1,3,4) have inv: "pool_inv st"
    by (rule reachable_pool_inv)
  have steps: "worker_thread_step now st (w\<lparr>pc := pc_dequeued monitor_task\<rparr>) =
      Some (st\<lparr>m_activeTasks := m_activeTasks st + 1\<rparr>, w\<lparr>pc := pc_running monitor_task\<rparr>)"
    "worker_thread_step now st (w\<lparr>pc := pc_running monitor_task\<rparr>) = None"
    using assms(4) by (simp_all add: worker_thread_step_def monitor_task_def)
  have "1 \<le> active_tasks st" if "monitor_running st"
  proof -
    from inv have "remove_thread_t st = None"
      by (simp add: pool_inv_def)
    with that obtain x where "x \<in> set (m_threads st)" "is_running x"
      by (auto simp: monitor_running_def list_ex_iff dest: is_running_monitor_running)
    then have "filter is_running (started_threads st) \<noteq> []"
      by (auto simp: filter_empty_conv started_threads_def)
    with inv have "unat (m_activeTasks st) \<noteq> 0"
      by (simp add: pool_inv_def)
    then show ?thesis
      by (simp add: active_tasks_def word_le_nat_alt Suc_le_eq unat_gt_0)
  qed
  moreover have "monitor_running st'"
    if "monitor_running st" "step st a = Some st'" "\<not> m_stopPool st'" for a st'
    using inv that by (rule step_monitor_running)
  ultimately show ?thesis
    using queue sched steps by blast
qed

theorem C9_monitor_occupies_worker_witness:
  "impl_ctor 4 5 16 0 0 shutdown_option_cancel_tasks =
     Inr (constructed 6 16 0 0 shutdown_option_cancel_tasks) \<and>
   m_minThreads (constructed 6 16 0 0 shutdown_option_cancel_tasks) <
     m_maxThreads (constructed 6 16 0 0 shutdown_option_cancel_tasks) \<and>
   run (constructed 6 16 0 0 shutdown_option_cancel_tasks) example_grow_trace = Some example_full \<and>
   \<not> m_stopPool example_full \<and>
   monitor_running example_full \<and>
   1 \<le> active_tasks example_full \<and>
   step example_full (Schedule 7 not_a_date_time) =
     Some (example_full\<lparr>m_pendingTasks := [user_task 6, user_task 7]\<rparr>) \<and>
   monitor_running (example_full\<lparr>m_pendingTasks := [user_task 6, user_task 7]\<rparr>)"
proof -
  have lt: "m_minThreads (constructed 6 16 0 0 shutdown_option_cancel_tasks) <
     m_maxThreads (constructed 6 16 0 0 shutdown_option_cancel_tasks)"
    by (simp add: constructed_def)
  have run: "\<not> m_stopPool example_full"
    by (simp add: example_full_def)
  have mon: "monitor_running example_full"
    by (simp add: example_full_def monitor_running_def is_running_monitor_def monitor_worker_def
        monitor_task_def)
  have step: "step example_full (Schedule 7 not_a_date_time) =
     Some (example_full\<lparr>m_pendingTasks := [user_task 6, user_task 7]\<rparr>)"
    by (simp add: example_full_def schedule_def user_task_def)
  have run': "\<not> m_stopPool (example_full\<lparr>m_pendingTasks := [user_task 6, user_task 7]\<rparr>)"
    by (simp add: example_full_def)
  from C9_monitor_occupies_worker [OF impl_ctor_examples(1) lt example_full_reachable run]
    mon step run'
  have "1 \<le> active_tasks example_full"
    "monitor_running (example_full\<lparr>m_pendingTasks := [user_task 6, user_task 7]\<rparr>)"
    by blast+
  with lt run mon step show ?thesis
    by (simp add: impl_ctor_examples example_full_reachable)
qed

text \<open>
  The claim as stated fails when the constructor returns: the monitor waits in the
  queue, no worker runs it, and \<open>active_tasks\<close> is 0.
\<close>

theorem C9_counterexample:
  "impl_ctor 4 5 16 0 0 shutdown_option_cancel_tasks =
     Inr (constructed 6 16 0 0 shutdown_option_cancel_tasks) \<and>
   m_pendingTasks (constructed 6 16 0 0 shutdown_option_cancel_tasks) = [monitor_task] \<and>
   pool_size (constructed 6 16 0 0 shutdown_option_cancel_tasks) = 6 \<and>
   active_tasks (constructed 6 16 0 0 shutdown_option_cancel_tasks) = 0 \<and>
   \<not> 1 \<le> active_tasks (constructed 6 16 0 0 shutdown_option_cancel_tasks) \<and>
   \<not> monitor_running (constructed 6 16 0 0 shutdown_option_cancel_tasks)"
  by (simp add: impl_ctor_examples)
    (simp add: constructed_def active_tasks_def pool_size_def monitor_running_def
      is_running_monitor_def new_thread_def replicate_6)

section \<open>Pools without a monitor\<close>

lemma worker_thread_step_no_monitor:
  assumes "worker_thread_step now st w = Some (st', w')"
    and "list_all (\<lambda>task. m_task task \<noteq> pool_monitor_bound) (m_pendingTasks st)"
    and "\<not> holds_monitor w"
  shows "list_all (\<lambda>task. m_task task \<noteq> pool_monitor_bound) (m_pendingTasks st') \<and>
         \<not> holds_monitor w'"
  using assms
  by (auto simp: worker_thread_step_def worker_wait_or_dequeue_def worker_dequeue_def
      holds_monitor_def split: worker_pc.splits if_splits list.splits)

lemma no_monitor_not_running: "no_monitor st \<Longrightarrow> \<not> monitor_running st"
  by (auto simp: no_monitor_def monitor_running_def started_threads_def list_ex_iff list_all_iff
      holds_monitor_def is_running_monitor_def split: option.splits worker_pc.splits)

lemma step_no_monitor:
  assumes step: "step st a = Some st'" and no: "no_monitor st"
  shows "no_monitor st' \<and>
         (before_remove_loop st' \<longrightarrow>
            before_remove_loop st \<and> m_threadCount st' = m_threadCount st \<and>
            length (m_threads st') = length (m_threads st))"
proof (cases a)
  case (Schedule n abs_time)
  with step no show ?thesis
    by (auto simp: schedule_def no_monitor_def started_threads_def before_remove_loop_def
        split: if_splits)
next
  case (Worker i now)
  with step obtain st1 w' where i: "i < length (m_threads st)"
    and ws: "worker_thread_step now st (m_threads st ! i) = Some (st1, w')"
    and st': "st' = st1\<lparr>m_threads := (m_threads st1)[i := w']\<rparr>"
    by (auto split: if_splits option.splits)
  note frame = worker_thread_step_frame [OF ws]
  from no have all: "list_all (\<lambda>w. \<not> holds_monitor w) (m_threads st)"
    "list_all (\<lambda>w. \<not> holds_monitor w) (created_thread (monitor_at st))"
    by (simp_all add: no_monitor_def started_threads_def)
  with i have "\<not> holds_monitor (m_threads st ! i)"
    by (simp add: list_all_length)
  with ws no have w': "list_all (\<lambda>task. m_task task \<noteq> pool_monitor_bound) (m_pendingTasks st1)"
    "\<not> holds_monitor w'"
    by (auto simp: no_monitor_def dest: worker_thread_step_no_monitor)
  have "list_all (\<lambda>w. \<not> holds_monitor w) ((m_threads st)[i := w'])"
    using all(1) w'(2) unfolding list_all_iff
    by (metis insert_iff set_update_subset_insert subsetD)
  with w' all(2) no frame st' show ?thesis
    by (simp add: no_monitor_def started_threads_def before_remove_loop_def)
next
  case (Added_worker now)
  with step obtain t st1 t' where at: "monitor_at st = mon_add_thread_made t"
    and ws: "worker_thread_step now st t = Some (st1, t')"
    and st': "st' = st1\<lparr>monitor_at := mon_add_thread_made t'\<rparr>"
    by (auto split: monitor_pc.splits option.splits)
  note frame = worker_thread_step_frame [OF ws]
  from no at have "\<not> holds_monitor t"
    by (simp add: no_monitor_def started_threads_def)
  with ws no have "list_all (\<lambda>task. m_task task \<noteq> pool_monitor_bound) (m_pendingTasks st1)"
    "\<not> holds_monitor t'"
    by (auto simp: no_monitor_def dest: worker_thread_step_no_monitor)
  with no at frame st' show ?thesis
    by (simp add: no_monitor_def started_threads_def before_remove_loop_def)
next
  case (Removed_worker now)
  with step obtain w st1 w' where t: "remove_thread_t st = Some w"
    and ws: "worker_thread_step now st w = Some (st1, w')"
    and st': "st' = st1\<lparr>remove_thread_t := Some w'\<rparr>"
    by (auto split: option.splits)
  note frame = worker_thread_step_frame [OF ws]
  from no t have "\<not> holds_monitor w"
    by (simp add: no_monitor_def)
  with ws no have "list_all (\<lambda>task. m_task task \<noteq> pool_monitor_bound) (m_pendingTasks st1)"
    "\<not> holds_monitor w'"
    by (auto simp: no_monitor_def dest: worker_thread_step_no_monitor)
  with no frame st' show ?thesis
    by (simp add: no_monitor_def started_threads_def before_remove_loop_def)
next
  case Monitor_begin
  with step no_monitor_not_running [OF no] show ?thesis
    by simp
next
  case Monitor_grow
  with step no_monitor_not_running [OF no] show ?thesis
    by simp
next
  case Monitor_push
  with step no_monitor_not_running [OF no] show ?thesis
    by (simp split: monitor_pc.splits)
next
  case Monitor_count
  with step no_monitor_not_running [OF no] show ?thesis
    by simp
next
  case Monitor_examine
  with step no_monitor_not_running [OF no] show ?thesis
    by (simp split: monitor_pc.splits)
next
  case Monitor_decrement
  with step no_monitor_not_running [OF no] show ?thesis
    by (simp split: monitor_pc.splits)
next
  case Monitor_join
  with step no_monitor_not_running [OF no] show ?thesis
    by (simp split: monitor_pc.splits)
next
  case Destructor_stop
  with step no show ?thesis
    by (auto simp: no_monitor_def started_threads_def before_remove_loop_def split: if_splits)
next
  case Destructor_shutdown
  with step no show ?thesis
    by (auto simp: no_monitor_def started_threads_def before_remove_loop_def destructor_shutdown_def
        split: if_splits)
next
  case Destructor_remove_thread
  with step have ne: "m_threads st \<noteq> []"
    and st': "st' = st\<lparr>m_threads := butlast (m_threads st),
        m_threadCount := m_threadCount st - 1,
        remove_thread_t := Some ((last (m_threads st))\<lparr>interrupt_requested := True\<rparr>),
        destructor_at := dtor_in_join\<rparr>"
    by (auto simp: remove_thread_interrupt_def split: if_splits)
  from no have all: "\<forall>w \<in> set (m_threads st). \<not> holds_monitor w"
    and made: "list_all (\<lambda>w. \<not> holds_monitor w) (created_thread (monitor_at st))"
    by (simp_all add: no_monitor_def started_threads_def list_all_iff)
  then have "\<forall>w \<in> set (butlast (m_threads st)). \<not> holds_monitor w"
    by (auto dest: in_set_butlastD)
  moreover from all ne have "\<not> holds_monitor (last (m_threads st))"
    by simp
  then have "\<not> holds_monitor ((last (m_threads st))\<lparr>interrupt_requested := True\<rparr>)"
    by (simp add: holds_monitor_def)
  ultimately show ?thesis
    using no made st'
    by (auto simp: no_monitor_def started_threads_def before_remove_loop_def list_all_iff)
next
  case Destructor_join
  with step no show ?thesis
    by (auto simp: no_monitor_def started_threads_def before_remove_loop_def remove_thread_join_def
        split: if_splits option.splits)
qed

lemma run_no_monitor:
  "run st as = Some st' \<Longrightarrow> no_monitor st \<Longrightarrow>
     no_monitor st' \<and>
     (before_remove_loop st' \<longrightarrow>
        before_remove_loop st \<and> m_threadCount st' = m_threadCount st \<and>
        length (m_threads st') = length (m_threads st))"
proof (induction as arbitrary: st)
  case Nil
  then show ?case
    by simp
next
  case (Cons a as)
  then obtain st1 where s: "step st a = Some st1" and r: "run st1 as = Some st'"
    by (auto split: option.splits)
  from step_no_monitor [OF s Cons.prems(2)] Cons.IH [OF r] show ?case
    by auto
qed

lemma no_monitor_constructed:
  "\<not> m < max_threads \<Longrightarrow> no_monitor (constructed m max_threads timeout_add timeout_del on_shutdown)"
  by (simp add: no_monitor_def started_threads_def constructed_def list_all_iff new_thread_def
      holds_monitor_def)

text \<open>
  C5, as amended.  For every call of the constructor whose minimum is the automatic
  value or at most the maximum: the monitor is submitted if and only if the resolved
  minimum plus one is strictly below the maximum (that is, \<open>m_minThreads < m_maxThreads\<close>).
  When the resolved minimum is the maximum, or one less, no monitor is submitted, no
  worker ever runs one, and until the destructor starts removing threads the pool size
  stays \<open>m_minThreads\<close>.
\<close>

theorem C5_monitor_exists:
  assumes "min_threads = - 1 \<or> min_threads \<le> max_threads"
    and "impl_ctor hw min_threads max_threads timeout_add timeout_del on_shutdown = Inr st0"
  shows "(m_pendingTasks st0 = [monitor_task] \<longleftrightarrow>
            unat (spec_resolved_min hw min_threads max_threads) + 1 < unat max_threads) \<and>
         (m_pendingTasks st0 = [] \<longleftrightarrow>
            \<not> unat (spec_resolved_min hw min_threads max_threads) + 1 < unat max_threads) \<and>
         pool_size st0 = m_minThreads st0 \<and>
         (\<not> unat (spec_resolved_min hw min_threads max_threads) + 1 < unat max_threads \<and>
          run st0 as = Some st \<longrightarrow>
            \<not> monitor_running st \<and>
            (before_remove_loop st \<longrightarrow>
               pool_size st = m_minThreads st0 \<and>
               length (m_threads st) = unat (m_minThreads st0)))"
proof -
  define r where "r = spec_resolved_min hw min_threads max_threads"
  define m where "m = compute_min_threads hw min_threads max_threads"
  have m: "m = (if r = max_threads then r else r + 1)"
    by (simp add: m_def r_def compute_min_threads_eq)
  have r_le: "r \<le> max_threads"
    using assms(1) by (auto simp: r_def spec_resolved_min_def spec_clamp_def)
  have "r \<noteq> max_threads \<Longrightarrow> unat (r + 1) = unat r + 1"
    using r_le by unat_arith
  with r_le have lt: "m < max_threads \<longleftrightarrow> unat r + 1 < unat max_threads"
    by (auto simp: m word_less_nat_alt word_le_nat_alt)
  from assms(2) have st0: "st0 = constructed m max_threads timeout_add timeout_del on_shutdown"
    by (auto simp: impl_ctor_eq m_def split: if_splits)
  have queue: "m_pendingTasks st0 = (if m < max_threads then [monitor_task] else [])"
    "pool_size st0 = m_minThreads st0" "length (m_threads st0) = unat (m_minThreads st0)"
    "m_threadCount st0 = m_minThreads st0"
    unfolding st0 by (simp_all add: constructed_def pool_size_def)
  have "\<not> monitor_running st \<and>
      (before_remove_loop st \<longrightarrow>
         pool_size st = m_minThreads st0 \<and> length (m_threads st) = unat (m_minThreads st0))"
    if "\<not> m < max_threads" "run st0 as = Some st"
  proof -
    from that(1) have "no_monitor st0"
      unfolding st0 by (rule no_monitor_constructed)
    from run_no_monitor [OF that(2) this] queue show ?thesis
      by (auto simp: pool_size_def dest: no_monitor_not_running)
  qed
  with queue lt show ?thesis
    unfolding r_def [symmetric] by auto
qed

theorem C5_monitor_exists_witness:
  "(2::uint) \<le> 3 \<and>
   impl_ctor 4 2 3 100 500 shutdown_option_cancel_tasks =
     Inr (constructed 3 3 100 500 shutdown_option_cancel_tasks) \<and>
   m_pendingTasks (constructed 3 3 100 500 shutdown_option_cancel_tasks) = [] \<and>
   \<not> unat (spec_resolved_min 4 2 3) + 1 < unat (3::uint) \<and>
   run (constructed 3 3 100 500 shutdown_option_cancel_tasks) example_fixed_trace = Some example_fixed \<and>
   before_remove_loop example_fixed \<and>
   \<not> monitor_running example_fixed \<and>
   pool_size example_fixed = 3 \<and>
   (5::uint) \<le> 16 \<and>
   impl_ctor 4 5 16 0 0 shutdown_option_cancel_tasks =
     Inr (constructed 6 16 0 0 shutdown_option_cancel_tasks) \<and>
   m_pendingTasks (constructed 6 16 0 0 shutdown_option_cancel_tasks) = [monitor_task] \<and>
   unat (spec_resolved_min 4 5 16) + 1 < unat (16::uint)"
proof -
  have a: "(2::uint) = - 1 \<or> (2::uint) \<le> 3" and b: "(5::uint) = - 1 \<or> (5::uint) \<le> 16"
    by simp_all
  have r: "\<not> unat (spec_resolved_min 4 2 3) + 1 < unat (3::uint)"
    "unat (spec_resolved_min 4 5 16) + 1 < unat (16::uint)"
    by (simp_all add: spec_resolved_min_def)
  have before: "before_remove_loop example_fixed"
    by (simp add: before_remove_loop_def example_fixed_def)
  from C5_monitor_exists [OF a impl_ctor_examples(4), where as = example_fixed_trace and st = example_fixed]
    C5_monitor_exists [OF b impl_ctor_examples(1)]
    r before example_fixed_reachable
  show ?thesis
    by (simp add: impl_ctor_examples) (simp add: constructed_def pool_size_def)
qed

text \<open>
  The claim as stated fails for a minimum of 2 and a maximum of 3: the minimum is below
  the maximum, and the constructor makes three workers and no monitor.
\<close>

theorem C5_counterexample:
  "(2::uint) < 3 \<and>
   impl_ctor 4 2 3 100 500 shutdown_option_cancel_tasks =
     Inr (constructed 3 3 100 500 shutdown_option_cancel_tasks) \<and>
   m_pendingTasks (constructed 3 3 100 500 shutdown_option_cancel_tasks) = [] \<and>
   pool_size (constructed 3 3 100 500 shutdown_option_cancel_tasks) = 3 \<and>
   \<not> monitor_running (constructed 3 3 100 500 shutdown_option_cancel_tasks)"
  by (simp add: impl_ctor_examples)
    (simp add: constructed_def pool_size_def monitor_running_def is_running_monitor_def
      new_thread_def replicate_3)

section \<open>A pool of one worker\<close>

lemma pool_of_one_frame [simp]:
  "pool_of_one (st\<lparr>step_count := c\<rparr>) = pool_of_one st"
  "pool_of_one (st\<lparr>m_pendingTasks := q\<rparr>) = pool_of_one st"
  by (simp_all add: pool_of_one_def before_remove_loop_def)

lemma pool_of_one_monitor_begin:
  assumes one: "pool_of_one st"
    and run: "\<not> m_stopPool st"
    and head: "monitor_at st = mon_loop_head"
    and step: "pool_monitor_begin st = Inr st'"
  shows "pool_of_one st'"
proof -
  from one run have dtor: "destructor_at st = dtor_not_called"
    by (auto simp: pool_of_one_def)
  with one have tc: "m_threadCount st = 1"
    by (simp add: pool_of_one_def before_remove_loop_def)
  then have not_down: "step_flag st \<noteq> flag_resize_down"
    by (simp add: step_flag_def pool_size_def active_tasks_def word_div_def)
  from one have flag: "resize_flag st \<noteq> flag_resize_down"
    by (simp add: pool_of_one_def)
  from one have "m_minThreads st < m_maxThreads st"
    by (simp add: pool_of_one_def)
  then have "1 \<le> m_maxThreads st"
    by unat_arith
  then have next1: "min (m_maxThreads st) 1 = 1"
    by (simp add: min_def)
  show ?thesis
  proof (cases "step_flag st \<noteq> resize_flag st")
    case True
    with step have "st' = st\<lparr>step_count := 0, resize_flag := step_flag st\<rparr>"
      by (simp add: pool_monitor_begin_def)
    with one not_down show ?thesis
      by (simp add: pool_of_one_def before_remove_loop_def)
  next
    case same: False
    with step have resize: "pool_monitor_resize (st\<lparr>step_count := step_count st + 1\<rparr>) = Inr st'"
      by (simp add: pool_monitor_begin_def)
    show ?thesis
    proof (cases "resize_flag st = flag_resize_up \<and> step_count st + 1 = MAX_STEPS_UP st")
      case True
      with resize tc next1 have "st' = st\<lparr>step_count := step_count st + 1,
          next_pool_size := 1, monitor_at := mon_grow_loop\<rparr>"
        by (simp add: pool_monitor_resize_def MAX_STEPS_UP_def pool_size_def
            unsigned_times_up_factor_1)
      with one tc dtor show ?thesis
        by (simp add: pool_of_one_def before_remove_loop_def)
    next
      case False
      with resize flag have "st' = st\<lparr>step_count := step_count st + 1\<rparr>"
        by (auto simp: pool_monitor_resize_def MAX_STEPS_UP_def MAX_STEPS_DOWN_def split: if_splits)
      with one show ?thesis
        by simp
    qed
  qed
qed

lemma step_pool_of_one:
  assumes step: "step st a = Some st'" and one: "pool_of_one st"
  shows "pool_of_one st'"
proof (cases a)
  case (Schedule n abs_time)
  with step one show ?thesis
    by (auto simp: schedule_def split: if_splits)
next
  case (Worker i now)
  with step obtain st1 w' where
    ws: "worker_thread_step now st (m_threads st ! i) = Some (st1, w')"
    and st': "st' = st1\<lparr>m_threads := (m_threads st1)[i := w']\<rparr>"
    by (auto split: if_splits option.splits)
  from worker_thread_step_frame [OF ws] one st' show ?thesis
    by (simp add: pool_of_one_def before_remove_loop_def)
next
  case (Added_worker now)
  with step one show ?thesis
    by (auto simp: pool_of_one_def split: monitor_pc.splits)
next
  case (Removed_worker now)
  with step obtain w st1 w' where
    ws: "worker_thread_step now st w = Some (st1, w')"
    and st': "st' = st1\<lparr>remove_thread_t := Some w'\<rparr>"
    by (auto split: option.splits)
  from worker_thread_step_frame [OF ws] one st' show ?thesis
    by (simp add: pool_of_one_def before_remove_loop_def)
next
  case Monitor_begin
  with step one show ?thesis
    by (auto split: if_splits sum.splits intro: pool_of_one_monitor_begin)
next
  case Monitor_grow
  with step one show ?thesis
    by (auto simp: pool_of_one_def before_remove_loop_def pool_monitor_grown_def pool_size_def
        split: if_splits)
next
  case Monitor_push
  with step one show ?thesis
    by (auto simp: pool_of_one_def split: monitor_pc.splits)
next
  case Monitor_count
  with step one show ?thesis
    by (auto simp: pool_of_one_def split: if_splits)
next
  case Monitor_examine
  with step one show ?thesis
    by (auto simp: pool_of_one_def split: monitor_pc.splits)
next
  case Monitor_decrement
  with step one show ?thesis
    by (auto simp: pool_of_one_def split: monitor_pc.splits)
next
  case Monitor_join
  with step one show ?thesis
    by (auto simp: pool_of_one_def split: monitor_pc.splits)
next
  case Destructor_stop
  with step one show ?thesis
    by (auto simp: pool_of_one_def before_remove_loop_def split: if_splits)
next
  case Destructor_shutdown
  with step one show ?thesis
    by (auto simp: pool_of_one_def before_remove_loop_def destructor_shutdown_def split: if_splits)
next
  case Destructor_remove_thread
  with step have ne: "m_threads st \<noteq> []" and loop: "destructor_at st = dtor_remove_loop"
    and pos: "0 < m_threadCount st"
    and st': "st' = st\<lparr>m_threads := butlast (m_threads st),
        m_threadCount := m_threadCount st - 1,
        remove_thread_t := Some ((last (m_threads st))\<lparr>interrupt_requested := True\<rparr>),
        destructor_at := dtor_in_join\<rparr>"
    by (auto simp: remove_thread_interrupt_def pool_size_def split: if_splits)
  from one pos have "m_threadCount st = 1"
    unfolding pool_of_one_def by unat_arith
  with one loop st' show ?thesis
    by (auto simp: pool_of_one_def before_remove_loop_def)
next
  case Destructor_join
  with step one show ?thesis
    by (auto simp: pool_of_one_def before_remove_loop_def remove_thread_join_def
        split: if_splits option.splits)
qed

lemma run_pool_of_one:
  "run st as = Some st' \<Longrightarrow> pool_of_one st \<Longrightarrow> pool_of_one st'"
proof (induction as arbitrary: st)
  case Nil
  then show ?case
    by simp
next
  case (Cons a as)
  then obtain st1 where s: "step st a = Some st1" and r: "run st1 as = Some st'"
    by (auto split: option.splits)
  from step_pool_of_one [OF s Cons.prems(2)] Cons.IH [OF r] show ?case
    by simp
qed

lemma pool_monitor_iteration_at_one:
  assumes "step_flag st = flag_resize_up"
    and "resize_flag st = flag_resize_up"
    and "step_count st + 1 = MAX_STEPS_UP st"
    and "pool_size st = 1"
    and "1 \<le> m_maxThreads st"
  shows "pool_monitor_iteration st =
           Inr (st\<lparr>step_count := 0, resize_flag := flag_no_resize, next_pool_size := 1,
                   monitor_at := mon_loop_head\<rparr>)"
proof -
  from assms(4,5) have le: "pool_size st \<le> m_maxThreads st"
    and u: "unsigned_times_up_factor (pool_size st) = Inr 1"
    and m: "min (m_maxThreads st) 1 = 1"
    by (simp_all add: unsigned_times_up_factor_1 min_def)
  from pool_monitor_iteration_grow [OF assms(1-3) le u] assms(4) show ?thesis
    by (simp add: m pool_size_def)
qed

text \<open>
  C10.  A pool constructed with a minimum of 0 and a maximum above 1 starts with one
  worker, and in every state it reaches the pool size is at most 1 and the worker set
  holds at most one worker.  When the grow step fires there at a pool size of 1, the
  target is \<open>min(m_maxThreads, 1) = 1\<close> and the iteration adds no worker: it resets the
  flag and the step count and changes nothing else.
\<close>

theorem C10_pool_of_one_never_grows:
  assumes "1 < max_threads"
    and "impl_ctor hw 0 max_threads timeout_add timeout_del on_shutdown = Inr st0"
    and "run st0 as = Some st"
  shows "pool_size st0 = 1 \<and>
         pool_size st \<le> 1 \<and>
         length (m_threads st) \<le> 1 \<and>
         (step_flag st = flag_resize_up \<and> resize_flag st = flag_resize_up \<and>
          step_count st + 1 = MAX_STEPS_UP st \<and> pool_size st = 1 \<longrightarrow>
            pool_monitor_iteration st =
              Inr (st\<lparr>step_count := 0, resize_flag := flag_no_resize, next_pool_size := 1,
                      monitor_at := mon_loop_head\<rparr>))"
proof -
  from assms(1) have "max_threads \<noteq> 0" "(0::uint) \<noteq> - 1"
    by auto
  then have m: "compute_min_threads hw 0 max_threads = 1"
    by (simp add: compute_min_threads_def)
  from assms(1) have "(1::uint) \<le> max_threads"
    by unat_arith
  with assms(2) m have st0: "st0 = constructed 1 max_threads timeout_add timeout_del on_shutdown"
    by (simp add: impl_ctor_eq)
  have "pool_of_one st0"
    unfolding st0 using assms(1)
    by (simp add: pool_of_one_def constructed_def before_remove_loop_def)
  with assms(3) have one: "pool_of_one st"
    by (rule run_pool_of_one)
  then have "m_threadCount st \<le> 1" "length (m_threads st) = unat (m_threadCount st)"
    "m_minThreads st < m_maxThreads st"
    by (simp_all add: pool_of_one_def)
  then have size: "pool_size st \<le> 1" "length (m_threads st) \<le> 1" "1 \<le> m_maxThreads st"
    by (simp_all add: pool_size_def) unat_arith+
  have "pool_size st0 = 1"
    by (simp add: st0 constructed_def pool_size_def)
  with size pool_monitor_iteration_at_one show ?thesis
    by blast
qed

theorem C10_pool_of_one_never_grows_witness:
  "(1::uint) < 2 \<and>
   impl_ctor 4 0 2 0 0 shutdown_option_cancel_tasks =
     Inr (constructed 1 2 0 0 shutdown_option_cancel_tasks) \<and>
   run (constructed 1 2 0 0 shutdown_option_cancel_tasks) example_one_trace = Some example_one \<and>
   step_flag example_one = flag_resize_up \<and>
   resize_flag example_one = flag_resize_up \<and>
   step_count example_one + 1 = MAX_STEPS_UP example_one \<and>
   pool_size example_one = 1 \<and>
   pool_monitor_iteration example_one =
     Inr (example_one\<lparr>step_count := 0, resize_flag := flag_no_resize, next_pool_size := 1\<rparr>)"
proof -
  have lt: "(1::uint) < 2"
    by simp
  have fires: "step_flag example_one = flag_resize_up" "resize_flag example_one = flag_resize_up"
    "step_count example_one + 1 = MAX_STEPS_UP example_one" "pool_size example_one = 1"
    by (simp_all add: example_one_def step_flag_def active_tasks_def pool_size_def MAX_STEPS_UP_def)
  from C10_pool_of_one_never_grows [OF lt impl_ctor_examples(3) example_one_reachable] fires
  have "pool_monitor_iteration example_one =
      Inr (example_one\<lparr>step_count := 0, resize_flag := flag_no_resize, next_pool_size := 1,
             monitor_at := mon_loop_head\<rparr>)"
    by blast
  then have "pool_monitor_iteration example_one =
      Inr (example_one\<lparr>step_count := 0, resize_flag := flag_no_resize, next_pool_size := 1\<rparr>)"
    by (simp add: example_one_def)
  with fires show ?thesis
    by (simp add: impl_ctor_examples example_one_reachable)
qed

end
